theory Spec2Isabelle
  imports Main
begin

section \<open>JavaScript values and library functions used by the lobby module\<close>

text \<open>
  User identifiers and role names are JavaScript strings. A plain object is the
  association list of its properties in the order in which they are enumerated, read
  with \<open>map_of\<close>; reading a property of \<open>undefined\<close> and spreading
  \<open>undefined\<close> or a plain object into an array literal raise \<open>TypeError\<close>.
\<close>

type_synonym userID = string
type_synonym roleName = string

datatype error = TypeError | RangeError

text \<open>
  A JavaScript number is a double. The module computes with integers only: a number is
  an integer that a double holds exactly, an infinity or \<open>NaN\<close>. \<open>double\<close> is
  the double nearest to an integer: integers of magnitude below \<open>2^53\<close> are exact,
  larger ones are rounded to 53 significant bits, a tie going to the even significand,
  and a rounded magnitude of \<open>2^1024\<close> or more is infinite. An arithmetic operation
  on numbers gives the double nearest to the exact result.
\<close>

datatype number = Finite int | PosInfinity | NegInfinity | NaN

function bitlength :: "int \<Rightarrow> nat" where
  "bitlength n = (if n \<le> 0 then 0 else Suc (bitlength (n div 2)))"
  by pat_completeness auto
termination
  by (relation "measure nat") auto

declare bitlength.simps [simp del]

definition round_magnitude :: "int \<Rightarrow> int" where
  "round_magnitude n =
     (let e = bitlength n - 53;
          q = n div 2 ^ e;
          r = n mod 2 ^ e
      in (if 2 ^ e < 2 * r \<or> (2 * r = 2 ^ e \<and> odd q) then q + 1 else q) * 2 ^ e)"

definition double :: "int \<Rightarrow> number" where
  "double x =
     (if \<bar>x\<bar> < 2 ^ 53 then Finite x
      else let m = round_magnitude \<bar>x\<bar>
           in if 2 ^ 1024 \<le> m then (if x < 0 then NegInfinity else PosInfinity)
              else Finite (if x < 0 then - m else m))"

fun js_negate :: "number \<Rightarrow> number" where
  "js_negate (Finite x) = Finite (- x)"
| "js_negate PosInfinity = NegInfinity"
| "js_negate NegInfinity = PosInfinity"
| "js_negate NaN = NaN"

fun js_add :: "number \<Rightarrow> number \<Rightarrow> number" where
  "js_add (Finite x) (Finite y) = double (x + y)"
| "js_add NaN b = NaN"
| "js_add a NaN = NaN"
| "js_add PosInfinity NegInfinity = NaN"
| "js_add NegInfinity PosInfinity = NaN"
| "js_add PosInfinity b = PosInfinity"
| "js_add a PosInfinity = PosInfinity"
| "js_add NegInfinity b = NegInfinity"
| "js_add a NegInfinity = NegInfinity"

definition js_subtract :: "number \<Rightarrow> number \<Rightarrow> number" where
  "js_subtract a b = js_add a (js_negate b)"

fun js_sign :: "number \<Rightarrow> int" where
  "js_sign (Finite x) = sgn x"
| "js_sign PosInfinity = 1"
| "js_sign NegInfinity = - 1"
| "js_sign NaN = 0"

fun js_multiply :: "number \<Rightarrow> number \<Rightarrow> number" where
  "js_multiply (Finite x) (Finite y) = double (x * y)"
| "js_multiply NaN b = NaN"
| "js_multiply a NaN = NaN"
| "js_multiply a b =
     (if js_sign a * js_sign b = 0 then NaN
      else if 0 < js_sign a * js_sign b then PosInfinity
      else NegInfinity)"

fun js_greater :: "number \<Rightarrow> number \<Rightarrow> bool" where
  "js_greater (Finite x) (Finite y) = (y < x)"
| "js_greater NaN b = False"
| "js_greater a NaN = False"
| "js_greater a PosInfinity = False"
| "js_greater PosInfinity b = True"
| "js_greater NegInfinity b = False"
| "js_greater a NegInfinity = True"

text \<open>
  A JavaScript \<open>Set\<close> is the list of its members in insertion order: \<open>add\<close> appends
  a value that is not yet a member, \<open>delete\<close> removes it, \<open>size\<close> is the length
  and \<open>new Set(iterable)\<close> adds the values one after the other to the empty set.
\<close>

definition Set_add :: "'a \<Rightarrow> 'a list \<Rightarrow> 'a list" where
  "Set_add x s = (if x \<in> set s then s else s @ [x])"

definition Set_delete :: "'a \<Rightarrow> 'a list \<Rightarrow> 'a list" where
  "Set_delete x s = removeAll x s"

definition Set_has :: "'a \<Rightarrow> 'a list \<Rightarrow> bool" where
  "Set_has x s = (x \<in> set s)"

definition new_Set :: "'a list \<Rightarrow> 'a list" where
  "new_Set xs = fold Set_add xs []"

text \<open>The lodash functions the module calls, on arrays and on plain objects.\<close>

definition lodash_keys :: "('k \<times> 'a) list \<Rightarrow> 'k list" where
  "lodash_keys obj = map fst obj"

definition lodash_mapValues :: "('k \<times> 'a) list \<Rightarrow> ('a \<Rightarrow> 'b) \<Rightarrow> ('k \<times> 'b) list" where
  "lodash_mapValues obj f = map (\<lambda>(k, v). (k, f v)) obj"

definition lodash_includes :: "'a list \<Rightarrow> 'a \<Rightarrow> bool" where
  "lodash_includes xs x = (x \<in> set xs)"

definition lodash_intersection :: "'a list \<Rightarrow> 'a list \<Rightarrow> 'a list" where
  "lodash_intersection xs ys = fold Set_add (filter (\<lambda>x. x \<in> set ys) xs) []"

definition lodash_without :: "'a list \<Rightarrow> 'a \<Rightarrow> 'a list" where
  "lodash_without xs x = filter (\<lambda>y. y \<noteq> x) xs"

definition lodash_flatten :: "'a list list \<Rightarrow> 'a list" where
  "lodash_flatten xss = concat xss"

definition lodash_compact :: "string list \<Rightarrow> string list" where
  "lodash_compact xs = filter (\<lambda>x. x \<noteq> []) xs"

text \<open>
  \<open>lodash.reduce\<close> with a callback that can throw: the exception leaves the
  reduction at once.
\<close>

fun lodash_reduce :: "('b \<Rightarrow> 'a \<Rightarrow> error + 'b) \<Rightarrow> 'a list \<Rightarrow> 'b \<Rightarrow> error + 'b" where
  "lodash_reduce f [] acc = Inr acc"
| "lodash_reduce f (x # xs) acc =
     (case f acc x of Inl e \<Rightarrow> Inl e | Inr acc' \<Rightarrow> lodash_reduce f xs acc')"

text \<open>
  \<open>Combinatorics.combination(ary, nelem).toArray()\<close> of the js-combinatorics package
  (an external dependency). A size of 0 stands for the whole length; a size below 1 or
  above the length raises \<open>RangeError\<close>. The package walks bit masks over the
  positions of \<open>ary\<close> (position 0 is the lowest bit), from \<open>(1 << nelem) - 1\<close>
  up to \<open>1 << ary.length\<close>, with 32-bit shifts.
  \<^item> On at most 30 elements the masks are the \<open>nelem\<close>-element selections of
    \<open>ary\<close>, each in the order of \<open>ary\<close>, those without the last element before
    those with it; \<open>choose_rev\<close> enumerates them over the reversed array.
  \<^item> On a length that is 31 modulo 32 the upper bound wraps to \<open>-2^31\<close>: a size that
    is 31 modulo 32 starts below it and gives the one selection of the first 31
    elements, every other size starts above it and gives nothing.
  \<^item> On every other length the walk does not end from size 31 on (the mask \<open>-1\<close>
    follows itself), so \<open>calculateRolesNeeded\<close> does not return with such a
    configuration; the model, which is total, gives no selections there.
\<close>

fun choose_rev :: "'a list \<Rightarrow> nat \<Rightarrow> 'a list list" where
  "choose_rev xs 0 = [[]]"
| "choose_rev [] (Suc k) = []"
| "choose_rev (x # xs) (Suc k) = choose_rev xs (Suc k) @ map (\<lambda>c. x # c) (choose_rev xs k)"

definition selections :: "'a list \<Rightarrow> nat \<Rightarrow> 'a list list" where
  "selections ary nelem =
     (if length ary \<le> 30 then map rev (choose_rev (rev ary) nelem)
      else if length ary mod 32 = 31 then (if nelem mod 32 = 31 then [take 31 ary] else [])
      else [])"

definition Combinatorics_combination :: "'a list \<Rightarrow> nat \<Rightarrow> error + 'a list list" where
  "Combinatorics_combination ary k =
     (let nelem = (if k = 0 then length ary else k)
      in if nelem < 1 then Inl RangeError
         else if nelem > length ary then Inl RangeError
         else Inr (selections ary nelem))"

section \<open>Configuration\<close>

text \<open>
  \<open>config.get('app.games.roles')\<close> is an object from role name to a descriptor whose
  \<open>min\<close> is the number of players of that role on one team, written in the
  configuration as an integer and read as the double nearest to it.
  \<open>self.getFilteredUser\<close> is supplied by the surrounding application.
\<close>

record 'v config =
  app_games_roles :: "(roleName \<times> int) list"
  getFilteredUser :: "userID \<Rightarrow> 'v"

section \<open>calculateRolesNeeded\<close>

record combinationInfo =
  available :: "userID list"
  required :: number

record neededCombination =
  roles :: "roleName list"
  needed :: number

text \<open>
  The callback of the reduction inside \<open>checkCombination\<close>. The size of a
  \<open>Set\<close> is an integer far below \<open>2^53\<close>, a number as it is.
\<close>

definition combinationStep ::
  "(roleName \<times> int) list \<Rightarrow> (roleName \<times> userID list) list \<Rightarrow>
   combinationInfo \<Rightarrow> roleName \<Rightarrow> error + combinationInfo" where
  "combinationStep rs playersAvailable current roleName =
     (case map_of playersAvailable roleName of
        None \<Rightarrow> Inl TypeError
      | Some pool \<Rightarrow>
          (case map_of rs roleName of
             None \<Rightarrow> Inl TypeError
           | Some m \<Rightarrow>
               Inr \<lparr>available = new_Set (available current @ pool),
                    required = js_add (required current)
                                 (js_multiply (double m) (Finite 2))\<rparr>))"

text \<open>
  \<open>checkCombination\<close> pushes onto \<open>neededCombinations\<close>, which is threaded through
  as the accumulator.
\<close>

definition checkCombination ::
  "(roleName \<times> int) list \<Rightarrow> (roleName \<times> userID list) list \<Rightarrow>
   neededCombination list \<Rightarrow> roleName list \<Rightarrow> error + neededCombination list" where
  "checkCombination rs playersAvailable neededCombinations combination =
     (case lodash_reduce (combinationStep rs playersAvailable) combination
             \<lparr>available = new_Set [], required = Finite 0\<rparr> of
        Inl e \<Rightarrow> Inl e
      | Inr combinationInfo \<Rightarrow>
          (let missing = js_subtract (required combinationInfo)
                           (Finite (int (length (available combinationInfo))))
           in if js_greater missing (Finite 0)
              then Inr (neededCombinations @ [\<lparr>roles = combination, needed = missing\<rparr>])
              else Inr neededCombinations))"

definition calculateRolesNeeded ::
  "'v config \<Rightarrow> (roleName \<times> userID list) list \<Rightarrow> error + neededCombination list" where
  "calculateRolesNeeded cfg playersAvailable =
     (let rs = app_games_roles cfg;
          roleNames = lodash_keys rs;
          n = length rs
      in lodash_reduce
           (\<lambda>neededCombinations k.
              case Combinatorics_combination roleNames k of
                Inl e \<Rightarrow> Inl e
              | Inr combinations \<Rightarrow>
                  lodash_reduce (checkCombination rs playersAvailable) combinations
                    neededCombinations)
           [1 ..< Suc n] [])"

section \<open>Lobby state\<close>

text \<open>
  The variables of the module closure, together with what the module has handed to its
  environment: the number of ready-period timeouts that are scheduled and have not yet
  fired, and everything emitted so far, in order.
\<close>

record 'v statusMessage =
  msg_playersAvailable :: "(roleName \<times> 'v list) list"
  msg_captainsAvailable :: "'v list"
  msg_rolesNeeded :: "neededCombination list"
  msg_missingLaunchConditions :: "string list option"

datatype 'v signal =
    LaunchStatusUpdated "'v statusMessage option"
  | LaunchInProgress
  | LaunchAborted
  | UserAvailabilityUpdated "(roleName \<times> bool) list" bool
  | UserReadyStatusUpdated bool

datatype 'v emission =
    Io_sockets_emit "'v signal"
  | Socket_emit "'v signal"
  | SendMessageToUser userID "'v signal"
  | LaunchGameDraft "(roleName \<times> userID list) list" "userID list"

record 'v state =
  captainsAvailable :: "userID list"
  playersAvailable :: "(roleName \<times> userID list) list"
  missingLaunchConditions :: "string list option"
  launchAttemptInProgress :: bool
  readiesReceived :: "userID list"
  currentStatusMessage :: "'v statusMessage option"
  timers :: nat
  emitted :: "'v emission list"

definition emit :: "'v emission \<Rightarrow> 'v state \<Rightarrow> 'v state" where
  "emit e s = s\<lparr>emitted := emitted s @ [e]\<rparr>"

definition initial :: "'v config \<Rightarrow> 'v state" where
  "initial cfg =
     \<lparr>captainsAvailable = new_Set [],
      playersAvailable = lodash_mapValues (app_games_roles cfg) (\<lambda>_. new_Set []),
      missingLaunchConditions = None,
      launchAttemptInProgress = False,
      readiesReceived = new_Set [],
      currentStatusMessage = None,
      timers = 0,
      emitted = []\<rparr>"

section \<open>checkLaunchConditions\<close>

text \<open>
  The executor of the one promise in the array: it runs at once, when
  \<open>checkLaunchConditions\<close> is called, and resolves with a list of tags; an exception
  inside it rejects the promise.
\<close>

definition launchConditionsExecutor :: "'v config \<Rightarrow> 'v state \<Rightarrow> error + string list" where
  "launchConditionsExecutor cfg s =
     (if length (captainsAvailable s) < 2 then Inr [''notAvailable'']
      else
        case calculateRolesNeeded cfg (playersAvailable s) of
          Inl e \<Rightarrow> Inl e
        | Inr rolesNeeded \<Rightarrow>
            if length rolesNeeded \<noteq> 0 then Inr [''notAvailable'']
            else if \<not> launchAttemptInProgress s then Inr [''readyNotChecked'']
            else
              let finalPlayersAvailable =
                    lodash_mapValues (playersAvailable s)
                      (\<lambda>available. new_Set (lodash_intersection available (readiesReceived s)));
                  finalCaptainsAvailable =
                    new_Set (lodash_intersection (captainsAvailable s) (readiesReceived s))
              in if length finalCaptainsAvailable < 2 then Inr [''notReady'']
                 else
                   case calculateRolesNeeded cfg finalPlayersAvailable of
                     Inl e \<Rightarrow> Inl e
                   | Inr finalRolesNeeded \<Rightarrow>
                       if length finalRolesNeeded \<noteq> 0 then Inr [''notReady'']
                       else Inr [])"

text \<open>
  \<open>Promise.all\<close> over the one-element array settles with the list of the resolved
  values, or with the rejection.
\<close>

definition checkLaunchConditions_all :: "'v config \<Rightarrow> 'v state \<Rightarrow> error + string list list" where
  "checkLaunchConditions_all cfg s =
     (case launchConditionsExecutor cfg s of
        Inl e \<Rightarrow> Inl e
      | Inr conditions \<Rightarrow> Inr [conditions])"

text \<open>
  The \<open>then\<close> callback, run as a microtask on the state of that moment: it stores the
  flattened, compacted list and resolves with it.
\<close>

definition checkLaunchConditions_then ::
  "string list list \<Rightarrow> 'v state \<Rightarrow> string list \<times> 'v state" where
  "checkLaunchConditions_then launchConditions s =
     (let m = lodash_compact (lodash_flatten launchConditions)
      in (m, s\<lparr>missingLaunchConditions := Some m\<rparr>))"

text \<open>
  \<open>checkLaunchConditions\<close> with nothing running between the call and the callback:
  the value the returned promise resolves with, and the state after it.
\<close>

definition checkLaunchConditions :: "'v config \<Rightarrow> 'v state \<Rightarrow> error + (string list \<times> 'v state)" where
  "checkLaunchConditions cfg s =
     (case checkLaunchConditions_all cfg s of
        Inl e \<Rightarrow> Inl e
      | Inr launchConditions \<Rightarrow> Inr (checkLaunchConditions_then launchConditions s))"

section \<open>prepareStatusMessage and attemptLaunch\<close>

definition prepareStatusMessage :: "'v config \<Rightarrow> 'v state \<Rightarrow> error + 'v state" where
  "prepareStatusMessage cfg s =
     (case calculateRolesNeeded cfg (playersAvailable s) of
        Inl e \<Rightarrow> Inl e
      | Inr rolesNeeded \<Rightarrow>
          Inr (s\<lparr>currentStatusMessage := Some
                 \<lparr>msg_playersAvailable =
                    lodash_mapValues (playersAvailable s) (map (getFilteredUser cfg)),
                  msg_captainsAvailable = map (getFilteredUser cfg) (captainsAvailable s),
                  msg_rolesNeeded = map (\<lambda>neededRole. neededRole) rolesNeeded,
                  msg_missingLaunchConditions = missingLaunchConditions s\<rparr>\<rparr>))"

text \<open>
  \<open>lodash(x).without(v).size()\<close> and \<open>lodash.size(x)\<close> on the variable
  \<open>missingLaunchConditions\<close>, which is \<open>undefined\<close> until the first check has
  resolved; both treat \<open>undefined\<close> as empty.
\<close>

definition sizeWithout :: "string list option \<Rightarrow> string \<Rightarrow> nat" where
  "sizeWithout m v = (case m of None \<Rightarrow> 0 | Some xs \<Rightarrow> length (lodash_without xs v))"

definition lodash_size :: "string list option \<Rightarrow> nat" where
  "lodash_size m = (case m of None \<Rightarrow> 0 | Some xs \<Rightarrow> length xs)"

text \<open>
  A handler ends with the exception that left it (or the rejection nobody handles), if
  any, and the state it leaves behind.
\<close>

type_synonym 'v outcome = "error option \<times> 'v state"

text \<open>
  The part of \<open>attemptLaunch\<close> that runs inside the call: with an attempt in progress
  the whole body; otherwise only the call of \<open>checkLaunchConditions\<close>, whose settled
  promise is returned for the callbacks, which run after the calling handler has
  finished.
\<close>

definition attemptLaunch_sync ::
  "'v config \<Rightarrow> 'v state \<Rightarrow> 'v outcome \<times> (error + string list list) option" where
  "attemptLaunch_sync cfg s =
     (if launchAttemptInProgress s then
        (case prepareStatusMessage cfg s of
           Inl e \<Rightarrow> ((Some e, s), None)
         | Inr s1 \<Rightarrow>
             ((None, emit (Io_sockets_emit (LaunchStatusUpdated (currentStatusMessage s1))) s1),
              None))
      else ((None, s), Some (checkLaunchConditions_all cfg s)))"

text \<open>
  The callbacks on the settled promise: a rejection skips both; otherwise the
  conditions are stored, the status is broadcast and, when nothing but
  \<open>readyNotChecked\<close> is missing, the ready period starts.
\<close>

definition attemptLaunch_then ::
  "'v config \<Rightarrow> error + string list list \<Rightarrow> 'v state \<Rightarrow> 'v outcome" where
  "attemptLaunch_then cfg settled s =
     (case settled of
        Inl e \<Rightarrow> (Some e, s)
      | Inr launchConditions \<Rightarrow>
          let s1 = snd (checkLaunchConditions_then launchConditions s)
          in case prepareStatusMessage cfg s1 of
               Inl e \<Rightarrow> (Some e, s1)
             | Inr s2 \<Rightarrow>
                 let s3 = emit (Io_sockets_emit (LaunchStatusUpdated (currentStatusMessage s2))) s2
                 in if sizeWithout (missingLaunchConditions s3) ''readyNotChecked'' = 0
                    then (None,
                          (emit (Io_sockets_emit LaunchInProgress)
                             (s3\<lparr>launchAttemptInProgress := True,
                                 readiesReceived := new_Set []\<rparr>))
                          \<lparr>timers := Suc (timers s3)\<rparr>)
                    else (None, s3))"

definition attemptLaunch :: "'v config \<Rightarrow> 'v state \<Rightarrow> 'v outcome" where
  "attemptLaunch cfg s =
     (case attemptLaunch_sync cfg s of
        ((Some e, s1), _) \<Rightarrow> (Some e, s1)
      | ((None, s1), None) \<Rightarrow> (None, s1)
      | ((None, s1), Some settled) \<Rightarrow> attemptLaunch_then cfg settled s1)"

text \<open>
  Spreading a plain object into an array literal, \<open>[...obj]\<close>: a plain object is not
  iterable, so the expression raises \<open>TypeError\<close> whatever the object holds.
\<close>

definition array_spread_object :: "('k \<times> 'a) list \<Rightarrow> error + ('k \<times> 'a) list" where
  "array_spread_object obj = Inl TypeError"

text \<open>The callback given to \<open>setTimeout\<close>, run when the ready period has elapsed.\<close>

definition readyPeriodElapsed :: "'v config \<Rightarrow> 'v state \<Rightarrow> 'v outcome" where
  "readyPeriodElapsed cfg s0 =
     (let s = s0\<lparr>timers := timers s0 - 1\<rparr>
      in case checkLaunchConditions cfg s of
           Inl e \<Rightarrow> (Some e, s)
         | Inr (_, s1) \<Rightarrow>
             let s2 = s1\<lparr>playersAvailable :=
                          lodash_mapValues (playersAvailable s1)
                            (\<lambda>available.
                               new_Set (lodash_intersection available (readiesReceived s1)))\<rparr>;
                 s3 = s2\<lparr>captainsAvailable :=
                          new_Set (lodash_intersection (captainsAvailable s2) (readiesReceived s2))\<rparr>
             in case prepareStatusMessage cfg s3 of
                  Inl e \<Rightarrow> (Some e, s3)
                | Inr s4 \<Rightarrow>
                    let s5 = emit (Io_sockets_emit (LaunchStatusUpdated (currentStatusMessage s4))) s4
                    in if lodash_size (missingLaunchConditions s5) = 0
                       then (case array_spread_object (playersAvailable s5) of
                               Inl e \<Rightarrow> (Some e, s5)
                             | Inr players \<Rightarrow>
                                 (None, emit (LaunchGameDraft players (captainsAvailable s5)) s5))
                       else (None, emit (Io_sockets_emit LaunchAborted) s5))"

section \<open>Event handlers\<close>

text \<open>
  \<open>self.userRestrictions\<close> belongs to the surrounding application: a map from user
  identifier to the list of that user's restricted aspects. The first part of the
  \<open>updateUserAvailability\<close> handler changes the registry; reading \<open>aspects\<close> for a
  user without an entry raises \<open>TypeError\<close>.
\<close>

definition updateAvailability ::
  "(userID \<rightharpoonup> string list) \<Rightarrow> userID \<Rightarrow> roleName list \<Rightarrow> bool \<Rightarrow> 'v state \<Rightarrow> error + 'v state" where
  "updateAvailability userRestrictions userID desiredRoles wantsCaptain s =
     (case userRestrictions userID of
        None \<Rightarrow> Inl TypeError
      | Some aspects \<Rightarrow>
          if \<not> lodash_includes aspects ''start'' then
            let s1 = s\<lparr>playersAvailable :=
                         map (\<lambda>(role, players).
                                (role, if lodash_includes desiredRoles role
                                       then Set_add userID players
                                       else Set_delete userID players))
                           (playersAvailable s)\<rparr>
            in if \<not> lodash_includes aspects ''captain'' then
                 (if wantsCaptain
                  then Inr (s1\<lparr>captainsAvailable := Set_add userID (captainsAvailable s1)\<rparr>)
                  else Inr (s1\<lparr>captainsAvailable := Set_delete userID (captainsAvailable s1)\<rparr>))
               else Inr (s1\<lparr>captainsAvailable := Set_delete userID (captainsAvailable s1)\<rparr>)
          else
            let s1 = s\<lparr>playersAvailable :=
                         map (\<lambda>(role, players). (role, Set_delete userID players))
                           (playersAvailable s)\<rparr>
            in Inr (s1\<lparr>captainsAvailable := Set_delete userID (captainsAvailable s1)\<rparr>))"

text \<open>
  The \<open>updateUserAvailability\<close> handler up to the end of the call: registry update,
  acknowledgment, and the part of \<open>attemptLaunch\<close> that runs inside the call.
\<close>

definition updateUserAvailability_sync ::
  "'v config \<Rightarrow> (userID \<rightharpoonup> string list) \<Rightarrow> userID \<Rightarrow> roleName list \<Rightarrow> bool \<Rightarrow> 'v state \<Rightarrow>
   'v outcome \<times> (error + string list list) option" where
  "updateUserAvailability_sync cfg userRestrictions userID desiredRoles wantsCaptain s =
     (case updateAvailability userRestrictions userID desiredRoles wantsCaptain s of
        Inl e \<Rightarrow> ((Some e, s), None)
      | Inr s1 \<Rightarrow>
          attemptLaunch_sync cfg
            (emit (SendMessageToUser userID
                     (UserAvailabilityUpdated
                        (lodash_mapValues (playersAvailable s1) (Set_has userID))
                        (Set_has userID (captainsAvailable s1))))
               s1))"

definition updateUserAvailability ::
  "'v config \<Rightarrow> (userID \<rightharpoonup> string list) \<Rightarrow> userID \<Rightarrow> roleName list \<Rightarrow> bool \<Rightarrow> 'v state \<Rightarrow>
   'v outcome" where
  "updateUserAvailability cfg userRestrictions userID desiredRoles wantsCaptain s =
     (case updateUserAvailability_sync cfg userRestrictions userID desiredRoles wantsCaptain s of
        ((Some e, s1), _) \<Rightarrow> (Some e, s1)
      | ((None, s1), None) \<Rightarrow> (None, s1)
      | ((None, s1), Some settled) \<Rightarrow> attemptLaunch_then cfg settled s1)"

definition updateUserReadyStatus :: "userID \<Rightarrow> bool \<Rightarrow> 'v state \<Rightarrow> 'v state" where
  "updateUserReadyStatus userID ready s =
     emit (SendMessageToUser userID (UserReadyStatusUpdated ready))
       (if launchAttemptInProgress s then
          (if ready then s\<lparr>readiesReceived := Set_add userID (readiesReceived s)\<rparr>
           else s\<lparr>readiesReceived := Set_delete userID (readiesReceived s)\<rparr>)
        else s)"

text \<open>
  \<open>userDisconnected\<close> emits the two events one after the other; the listeners run
  inside \<open>emit\<close>, so an exception in the first leaves the handler before the second,
  and the promise callbacks of \<open>attemptLaunch\<close> run after both.
\<close>

definition userDisconnected ::
  "'v config \<Rightarrow> (userID \<rightharpoonup> string list) \<Rightarrow> userID \<Rightarrow> 'v state \<Rightarrow> 'v outcome" where
  "userDisconnected cfg userRestrictions userID s =
     (case updateUserAvailability_sync cfg userRestrictions userID [] False s of
        ((Some e, s1), _) \<Rightarrow> (Some e, s1)
      | ((None, s1), pending) \<Rightarrow>
          let s2 = updateUserReadyStatus userID False s1
          in case pending of
               None \<Rightarrow> (None, s2)
             | Some settled \<Rightarrow> attemptLaunch_then cfg settled s2)"

definition connection :: "'v state \<Rightarrow> 'v state" where
  "connection s = emit (Socket_emit (LaunchStatusUpdated (currentStatusMessage s))) s"

definition authenticated :: "userID \<Rightarrow> 'v state \<Rightarrow> 'v state" where
  "authenticated decoded_token s =
     (let s1 = emit (Socket_emit
                       (UserAvailabilityUpdated
                          (lodash_mapValues (playersAvailable s) (Set_has decoded_token))
                          (Set_has decoded_token (captainsAvailable s))))
                 s
      in if launchAttemptInProgress s1 then
           emit (Socket_emit (UserReadyStatusUpdated (Set_has decoded_token (readiesReceived s1))))
             (emit (Socket_emit LaunchInProgress) s1)
         else s1)"

section \<open>Runs of the module\<close>

text \<open>
  Each event is handled to completion, promise callbacks included, before the next one.
  The timeout callback can only run while a timeout is pending. A run starts with the
  module's own call of \<open>attemptLaunch\<close> on the initial variables, and each event comes
  with the restriction map of its moment.
\<close>

datatype event =
    UpdateUserAvailability userID "roleName list" bool
  | UpdateUserReadyStatus userID bool
  | UserDisconnected userID
  | Connection
  | Authenticated userID
  | ReadyPeriodElapsed

fun handle :: "'v config \<Rightarrow> (userID \<rightharpoonup> string list) \<Rightarrow> event \<Rightarrow> 'v state \<Rightarrow> 'v outcome" where
  "handle cfg ur (UpdateUserAvailability userID desiredRoles wantsCaptain) s =
     updateUserAvailability cfg ur userID desiredRoles wantsCaptain s"
| "handle cfg ur (UpdateUserReadyStatus userID ready) s = (None, updateUserReadyStatus userID ready s)"
| "handle cfg ur (UserDisconnected userID) s = userDisconnected cfg ur userID s"
| "handle cfg ur Connection s = (None, connection s)"
| "handle cfg ur (Authenticated decoded_token) s = (None, authenticated decoded_token s)"
| "handle cfg ur ReadyPeriodElapsed s =
     (if timers s = 0 then (None, s) else readyPeriodElapsed cfg s)"

fun run :: "'v config \<Rightarrow> ((userID \<rightharpoonup> string list) \<times> event) list \<Rightarrow> 'v state \<Rightarrow> 'v state" where
  "run cfg [] s = s"
| "run cfg ((ur, e) # es) s = run cfg es (snd (handle cfg ur e s))"

definition startup :: "'v config \<Rightarrow> 'v state" where
  "startup cfg = snd (attemptLaunch cfg (initial cfg))"

section \<open>The sufficiency condition on role subsets\<close>

text \<open>
  What the calculator is meant to decide, on sets: the pool of a role, the number of
  distinct users in the pools of a subset of roles, and the headcount the subset
  requires (\<open>min \<times> 2\<close> for each of its roles).
\<close>

definition pool :: "(roleName \<times> userID list) list \<Rightarrow> roleName \<Rightarrow> userID set" where
  "pool pa r = (case map_of pa r of None \<Rightarrow> {} | Some v \<Rightarrow> set v)"

definition role_min :: "(roleName \<times> int) list \<Rightarrow> roleName \<Rightarrow> int" where
  "role_min rs r = (case map_of rs r of None \<Rightarrow> 0 | Some m \<Rightarrow> m)"

definition unionSize :: "(roleName \<Rightarrow> userID set) \<Rightarrow> roleName set \<Rightarrow> nat" where
  "unionSize P S = card (\<Union>r\<in>S. P r)"

definition requiredFor :: "(roleName \<times> int) list \<Rightarrow> roleName set \<Rightarrow> int" where
  "requiredFor rs S = (\<Sum>r\<in>S. role_min rs r * 2)"

text \<open>The closed form of the calculator's result, used in the proofs.\<close>

definition requiredOf :: "(roleName \<times> int) list \<Rightarrow> number \<Rightarrow> roleName list \<Rightarrow> number" where
  "requiredOf rs start c =
     foldl (\<lambda>acc r. js_add acc (js_multiply (double (role_min rs r)) (Finite 2))) start c"

definition missingFor ::
  "(roleName \<times> int) list \<Rightarrow> (roleName \<times> userID list) list \<Rightarrow> roleName list \<Rightarrow> number" where
  "missingFor rs pa c =
     js_subtract (requiredOf rs (Finite 0) c) (Finite (int (unionSize (pool pa) (set c))))"

definition deficits ::
  "(roleName \<times> int) list \<Rightarrow> (roleName \<times> userID list) list \<Rightarrow> roleName list list \<Rightarrow>
   neededCombination list" where
  "deficits rs pa cs =
     concat (map (\<lambda>c. if js_greater (missingFor rs pa c) (Finite 0)
                         then [\<lparr>roles = c, needed = missingFor rs pa c\<rparr>]
                         else []) cs)"

definition allCombinations :: "'a list \<Rightarrow> 'a list list" where
  "allCombinations names = concat (map (selections names) [1 ..< Suc (length names)])"

text \<open>The status message of a state whose registry has a pool for every role.\<close>

definition statusOf :: "'v config \<Rightarrow> 'v state \<Rightarrow> 'v statusMessage" where
  "statusOf cfg s =
     \<lparr>msg_playersAvailable = lodash_mapValues (playersAvailable s) (map (getFilteredUser cfg)),
      msg_captainsAvailable = map (getFilteredUser cfg) (captainsAvailable s),
      msg_rolesNeeded =
        deficits (app_games_roles cfg) (playersAvailable s)
          (allCombinations (map fst (app_games_roles cfg))),
      msg_missingLaunchConditions = missingLaunchConditions s\<rparr>"

text \<open>
  Relations between the state before and after a handler, used to follow the registry
  and the ready-check window through a run.
\<close>

definition same_registry :: "'v state \<Rightarrow> 'v state \<Rightarrow> bool" where
  "same_registry s s' =
     (captainsAvailable s' = captainsAvailable s \<and> playersAvailable s' = playersAvailable s)"

definition same_window :: "'v state \<Rightarrow> 'v state \<Rightarrow> bool" where
  "same_window s s' =
     (launchAttemptInProgress s' = launchAttemptInProgress s
      \<and> readiesReceived s' = readiesReceived s
      \<and> timers s' = timers s)"

definition window_opened :: "'v state \<Rightarrow> 'v state \<Rightarrow> bool" where
  "window_opened s s' =
     (launchAttemptInProgress s' \<and> readiesReceived s' = [] \<and> timers s' = Suc (timers s))"

definition window_inv :: "'v state \<Rightarrow> bool" where
  "window_inv s =
     (if launchAttemptInProgress s then timers s \<le> 1
      else timers s = 0 \<and> readiesReceived s = [])"

section \<open>Launch conditions as an ordered evaluation\<close>

text \<open>
  A configuration is an object, so its role names are distinct. It is within the exact
  range of the module when it has at most 30 roles, where the combination package
  enumerates every selection, and minimums of magnitude at most \<open>2^47\<close>, where the
  sums of \<open>min * 2\<close> over up to 30 roles stay below \<open>2^53\<close>. The registry of a state
  is well formed when it has one pool per configured role, in the order of the
  configuration, and its sets hold no value twice.
\<close>

definition roles_ok :: "(roleName \<times> int) list \<Rightarrow> bool" where
  "roles_ok rs =
     (distinct (map fst rs)
      \<and> length rs \<le> 30
      \<and> list_all (\<lambda>(role, m). \<bar>m\<bar> \<le> 2 ^ 47) rs)"

definition config_ok :: "'v config \<Rightarrow> bool" where
  "config_ok cfg = roles_ok (app_games_roles cfg)"

text \<open>
  The walk of the combination package over the role names ends, so that
  \<open>calculateRolesNeeded\<close> returns, when there are at most 30 roles or their number is
  31 modulo 32.
\<close>

definition enumeration_ends :: "'v config \<Rightarrow> bool" where
  "enumeration_ends cfg =
     (length (app_games_roles cfg) \<le> 30 \<or> length (app_games_roles cfg) mod 32 = 31)"

definition state_ok :: "'v config \<Rightarrow> 'v state \<Rightarrow> bool" where
  "state_ok cfg s =
     (map fst (playersAvailable s) = map fst (app_games_roles cfg)
      \<and> distinct (captainsAvailable s)
      \<and> list_all (\<lambda>(role, players). distinct players) (playersAvailable s)
      \<and> distinct (readiesReceived s))"

text \<open>
  The ordered evaluation of the launch conditions, in the words of the specification:
  the calculator reports a deficit when it returns a non-empty list, and each pool is
  intersected with the ready registry.
\<close>

definition calculator_reports :: "'v config \<Rightarrow> (roleName \<times> userID list) list \<Rightarrow> bool" where
  "calculator_reports cfg pa =
     (case calculateRolesNeeded cfg pa of Inl e \<Rightarrow> False | Inr ds \<Rightarrow> ds \<noteq> [])"

definition ready_pools :: "'v state \<Rightarrow> (roleName \<times> userID list) list" where
  "ready_pools s =
     map (\<lambda>(role, players). (role, filter (\<lambda>u. u \<in> set (readiesReceived s)) players))
       (playersAvailable s)"

definition spec_launchConditions :: "'v config \<Rightarrow> 'v state \<Rightarrow> string list" where
  "spec_launchConditions cfg s =
     (let C = set (captainsAvailable s);
          R = set (readiesReceived s)
      in if card C < 2 then [''notAvailable'']
         else if calculator_reports cfg (playersAvailable s) then [''notAvailable'']
         else if \<not> launchAttemptInProgress s then [''readyNotChecked'']
         else if card (C \<inter> R) < 2 \<or> calculator_reports cfg (ready_pools s)
              then [''notReady'']
         else [])"

text \<open>
  The same evaluation on sets alone: pools \<open>P\<close> are short when some non-empty subset
  of the configured roles has fewer distinct users than it requires.
\<close>

definition has_deficit :: "(roleName \<times> int) list \<Rightarrow> (roleName \<Rightarrow> userID set) \<Rightarrow> bool" where
  "has_deficit rs P =
     (\<exists>S\<in>Pow (set (map fst rs)). S \<noteq> {} \<and> int (unionSize P S) < requiredFor rs S)"

definition launchConditions_on_sets :: "'v config \<Rightarrow> 'v state \<Rightarrow> string list" where
  "launchConditions_on_sets cfg s =
     (let C = set (captainsAvailable s);
          P = pool (playersAvailable s);
          R = set (readiesReceived s)
      in if card C < 2 then [''notAvailable'']
         else if has_deficit (app_games_roles cfg) P then [''notAvailable'']
         else if \<not> launchAttemptInProgress s then [''readyNotChecked'']
         else if card (C \<inter> R) < 2 \<or> has_deficit (app_games_roles cfg) (\<lambda>r. P r \<inter> R)
              then [''notReady'']
         else [])"

section \<open>Observations on events and emissions\<close>

fun isLaunchGameDraft :: "'v emission \<Rightarrow> bool" where
  "isLaunchGameDraft (LaunchGameDraft players captains) = True"
| "isLaunchGameDraft _ = False"

fun isStatusBroadcast :: "'v emission \<Rightarrow> bool" where
  "isStatusBroadcast (Io_sockets_emit (LaunchStatusUpdated m)) = True"
| "isStatusBroadcast _ = False"

text \<open>The events whose handlers write the pools or the captain set.\<close>

fun changes_registry :: "event \<Rightarrow> bool" where
  "changes_registry (UpdateUserAvailability userID desiredRoles wantsCaptain) = True"
| "changes_registry (UserDisconnected userID) = True"
| "changes_registry ReadyPeriodElapsed = True"
| "changes_registry _ = False"

section \<open>Scenarios\<close>

text \<open>
  Two roles with one player of each on a team; the pools of the disjoint and of the
  fully overlapping scenario.
\<close>

definition scenario_config :: "userID config" where
  "scenario_config =
     \<lparr>app_games_roles = [(''tank'', 1), (''healer'', 1)], getFilteredUser = (\<lambda>u. u)\<rparr>"

definition disjoint_pools :: "(roleName \<times> userID list) list" where
  "disjoint_pools = [(''tank'', [''A'', ''B'']), (''healer'', [''C'', ''D''])]"

definition overlapping_pools :: "(roleName \<times> userID list) list" where
  "overlapping_pools = [(''tank'', [''A'', ''B'']), (''healer'', [''A'', ''B''])]"

text \<open>
  Restriction maps: one in which every user has an entry without restrictions, and the
  empty one. Four availability updates fill the disjoint pools with two captains, which
  opens the ready-check window; then one captain of the two confirms, or everybody does.
\<close>

definition everyone :: "userID \<rightharpoonup> string list" where
  "everyone = (\<lambda>userID. Some [])"

definition nobody :: "userID \<rightharpoonup> string list" where
  "nobody = (\<lambda>userID. None)"

definition gathering :: "((userID \<rightharpoonup> string list) \<times> event) list" where
  "gathering =
     [(everyone, UpdateUserAvailability ''A'' [''tank''] True),
      (everyone, UpdateUserAvailability ''B'' [''tank''] True),
      (everyone, UpdateUserAvailability ''C'' [''healer''] False),
      (everyone, UpdateUserAvailability ''D'' [''healer''] False)]"

definition window_open :: "userID state" where
  "window_open = run scenario_config gathering (startup scenario_config)"

definition one_captain_ready :: "userID state" where
  "one_captain_ready =
     run scenario_config
       [(everyone, UpdateUserReadyStatus ''A'' True),
        (everyone, UpdateUserReadyStatus ''C'' True),
        (everyone, UpdateUserReadyStatus ''D'' True)]
       window_open"

definition all_ready :: "userID state" where
  "all_ready =
     run scenario_config
       [(everyone, UpdateUserReadyStatus ''A'' True),
        (everyone, UpdateUserReadyStatus ''B'' True),
        (everyone, UpdateUserReadyStatus ''C'' True),
        (everyone, UpdateUserReadyStatus ''D'' True)]
       window_open"

text \<open>
  A configuration of 31 roles, \<open>r\<close> with one player on a team and 30 optional
  ones, with a registry in which nobody plays \<open>r\<close> and two users play every other
  role; a lobby state on that registry with the two users as captains and no attempt in
  progress. And a configuration whose one role has a minimum of \<open>2^53\<close>, with one
  player in its pool.
\<close>

definition many_roles_config :: "userID config" where
  "many_roles_config =
     \<lparr>app_games_roles =
        map (\<lambda>i. (replicate (Suc i) (CHR ''r''), if i = 0 then 1 else 0)) [0 ..< 31],
      getFilteredUser = (\<lambda>u. u)\<rparr>"

definition thin_pools :: "(roleName \<times> userID list) list" where
  "thin_pools =
     lodash_mapValues (app_games_roles many_roles_config)
       (\<lambda>m. if m = 0 then [''A'', ''B''] else [])"

definition many_roles_state :: "userID state" where
  "many_roles_state =
     \<lparr>captainsAvailable = [''A'', ''B''],
      playersAvailable = thin_pools,
      missingLaunchConditions = None,
      launchAttemptInProgress = False,
      readiesReceived = [],
      currentStatusMessage = None,
      timers = 0,
      emitted = []\<rparr>"

definition large_minimum_config :: "userID config" where
  "large_minimum_config =
     \<lparr>app_games_roles = [(''tank'', 2 ^ 53)], getFilteredUser = (\<lambda>u. u)\<rparr>"

definition one_tank :: "(roleName \<times> userID list) list" where
  "one_tank = [(''tank'', [''A''])]"

section \<open>The role sufficiency calculator\<close>

subsection \<open>Numbers, sets and combinations\<close>

lemma double_exact: "\<bar>x\<bar> < 2 ^ 53 \<Longrightarrow> double x = Finite x"
  by (simp add: double_def)

lemma bitlength_lower: "0 < n \<Longrightarrow> 2 ^ (bitlength n - 1) \<le> n"
proof (induction n rule: bitlength.induct)
  case (1 n)
  show ?case
  proof (cases "n div 2 \<le> 0")
    case True
    with "1.prems" have "n = 1" by linarith
    then show ?thesis by (simp add: bitlength.simps [of 1] bitlength.simps [of 0])
  next
    case False
    then have pos: "0 < n div 2" by simp
    with "1.prems" "1.IH" have ih: "2 ^ (bitlength (n div 2) - 1) \<le> n div 2" by simp
    have bl: "bitlength n = Suc (bitlength (n div 2))"
      using "1.prems" by (simp add: bitlength.simps [of n])
    have "bitlength (n div 2) \<ge> 1" using pos by (simp add: bitlength.simps [of "n div 2"])
    then have "(2::int) ^ (bitlength n - 1) = 2 * 2 ^ (bitlength (n div 2) - 1)"
      using bl by (cases "bitlength (n div 2)") simp_all
    also have "\<dots> \<le> 2 * (n div 2)" using ih by simp
    also have "\<dots> \<le> n" by simp
    finally show ?thesis .
  qed
qed

lemma round_magnitude_pos:
  assumes "0 < n"
  shows "0 < round_magnitude n"
proof -
  let ?e = "bitlength n - 53"
  have "(2::int) ^ ?e \<le> 2 ^ (bitlength n - 1)" by (rule power_increasing) simp_all
  also have "\<dots> \<le> n" using assms by (rule bitlength_lower)
  finally have "2 ^ ?e \<le> n" .
  then have q: "0 < n div 2 ^ ?e" by (simp add: pos_imp_zdiv_pos_iff)
  then have "0 < (if 2 ^ ?e < 2 * (n mod 2 ^ ?e) \<or> (2 * (n mod 2 ^ ?e) = 2 ^ ?e \<and> odd (n div 2 ^ ?e))
                  then n div 2 ^ ?e + 1 else n div 2 ^ ?e)"
    by simp
  then show ?thesis
    unfolding round_magnitude_def Let_def by (simp add: zero_less_mult_iff)
qed

lemma js_greater_double: "js_greater (double y) (Finite 0) \<longleftrightarrow> 0 < y"
proof (cases "\<bar>y\<bar> < 2 ^ 53")
  case True
  then show ?thesis by (simp add: double_exact)
next
  case False
  then have nz: "0 < \<bar>y\<bar>" by (smt (verit) zero_less_power)
  from round_magnitude_pos [OF nz] have m: "0 < round_magnitude \<bar>y\<bar>" .
  show ?thesis
  proof (cases "y < 0")
    case True
    with False m show ?thesis by (simp add: double_def Let_def)
  next
    case neg: False
    with nz have "0 < y" by simp
    with False m show ?thesis by (simp add: double_def Let_def)
  qed
qed

lemma js_subtract_Finite: "js_subtract (Finite x) (Finite y) = double (x - y)"
  by (simp add: js_subtract_def)

lemma js_greater_subtract:
  "js_greater (js_subtract (Finite x) (Finite y)) (Finite 0) \<longleftrightarrow> y < x"
  by (simp add: js_subtract_Finite js_greater_double)

lemma js_greater_subtract_antimono:
  assumes "y \<le> y'" "js_greater (js_subtract a (Finite y')) (Finite 0)"
  shows "js_greater (js_subtract a (Finite y)) (Finite 0)"
proof (cases a)
  case (Finite x)
  with assms show ?thesis by (simp add: js_greater_subtract)
next
  case PosInfinity
  then show ?thesis by (simp add: js_subtract_def)
next
  case NegInfinity
  with assms show ?thesis by (simp add: js_subtract_def)
next
  case NaN
  with assms show ?thesis by (simp add: js_subtract_def)
qed

lemma role_min_bound:
  assumes "list_all (\<lambda>(role, m). \<bar>m\<bar> \<le> 2 ^ 47) rs"
  shows "\<bar>role_min rs r\<bar> \<le> 2 ^ 47"
proof (cases "map_of rs r")
  case None
  then show ?thesis by (simp add: role_min_def)
next
  case (Some m)
  then have "(r, m) \<in> set rs" by (rule map_of_SomeD)
  with assms have "\<bar>m\<bar> \<le> 2 ^ 47" by (auto simp: list_all_iff)
  with Some show ?thesis by (simp add: role_min_def)
qed

lemma requiredOf_exact:
  assumes "\<And>r. \<bar>role_min rs r\<bar> \<le> 2 ^ 47"
    and "\<bar>a\<bar> + int (length c) * 2 ^ 48 < 2 ^ 53"
  shows "requiredOf rs (Finite a) c = Finite (a + (\<Sum>r\<leftarrow>c. role_min rs r * 2))"
  using assms(2)
proof (induction c arbitrary: a)
  case Nil
  then show ?case by (simp add: requiredOf_def)
next
  case (Cons r c)
  let ?m = "role_min rs r"
  have m: "\<bar>?m\<bar> \<le> 2 ^ 47" by (rule assms(1))
  have d1: "double ?m = Finite ?m" using m by (intro double_exact) simp
  have d2: "double (?m * 2) = Finite (?m * 2)" using m by (intro double_exact) simp
  have len: "\<bar>a\<bar> + 2 ^ 48 + int (length c) * 2 ^ 48 < 2 ^ 53"
    using Cons.prems by (simp add: algebra_simps)
  have p48: "(2::int) ^ 48 = 2 * 2 ^ 47" by simp
  have nonneg: "int (length c) * 2 ^ 48 \<ge> 0" by simp
  have small: "\<bar>a + ?m * 2\<bar> + int (length c) * 2 ^ 48 < 2 ^ 53"
    using len m p48 by linarith
  with nonneg have d3: "double (a + ?m * 2) = Finite (a + ?m * 2)"
    by (intro double_exact) linarith
  have step: "js_add (Finite a) (js_multiply (double ?m) (Finite 2)) = Finite (a + ?m * 2)"
    by (simp add: d1 d2 d3)
  from Cons.IH [OF small]
  have "requiredOf rs (Finite (a + ?m * 2)) c
      = Finite (a + ?m * 2 + (\<Sum>r\<leftarrow>c. role_min rs r * 2))" .
  then show ?case using step by (simp add: requiredOf_def)
qed

lemma set_fold_Set_add: "set (fold Set_add xs s) = set xs \<union> set s"
  by (induction xs arbitrary: s) (auto simp: Set_add_def)

lemma distinct_fold_Set_add: "distinct s \<Longrightarrow> distinct (fold Set_add xs s)"
  by (induction xs arbitrary: s) (auto simp: Set_add_def)

lemma set_new_Set: "set (new_Set xs) = set xs"
  by (simp add: new_Set_def set_fold_Set_add)

lemma distinct_new_Set: "distinct (new_Set xs)"
  by (simp add: new_Set_def distinct_fold_Set_add)

lemma length_new_Set: "length (new_Set xs) = card (set xs)"
  using distinct_card [OF distinct_new_Set, of xs] by (simp add: set_new_Set)

lemma choose_rev_sound:
  "c \<in> set (choose_rev xs k) \<Longrightarrow> length c = k \<and> set c \<subseteq> set xs \<and> (distinct xs \<longrightarrow> distinct c)"
proof (induction xs k arbitrary: c rule: choose_rev.induct)
  case (1 xs)
  then show ?case by simp
next
  case (2 k)
  then show ?case by simp
next
  case (3 x xs k)
  from "3.prems" consider "c \<in> set (choose_rev xs (Suc k))"
    | c' where "c = x # c'" "c' \<in> set (choose_rev xs k)" by auto
  then show ?case
  proof cases
    case 1
    from "3.IH"(1) [OF 1] show ?thesis by auto
  next
    case 2
    from "3.IH"(2) [OF 2(2)] 2(1) show ?thesis by auto
  qed
qed

lemma choose_rev_complete:
  "distinct xs \<Longrightarrow> S \<subseteq> set xs \<Longrightarrow> card S = k \<Longrightarrow> \<exists>c\<in>set (choose_rev xs k). set c = S"
proof (induction xs arbitrary: S k)
  case Nil
  then show ?case by simp
next
  case (Cons x xs)
  have fin: "finite S" using Cons.prems(2) by (rule finite_subset) simp
  show ?case
  proof (cases k)
    case 0
    with Cons.prems fin show ?thesis by simp
  next
    case (Suc k')
    show ?thesis
    proof (cases "x \<in> S")
      case True
      have "S - {x} \<subseteq> set xs" using Cons.prems(2) by auto
      moreover have "card (S - {x}) = k'" using True fin Cons.prems(3) Suc by simp
      ultimately obtain c where c: "c \<in> set (choose_rev xs k')" "set c = S - {x}"
        using Cons.IH [of "S - {x}" k'] Cons.prems(1) by auto
      have "x # c \<in> set (choose_rev (x # xs) k)" using c(1) Suc by simp
      moreover have "set (x # c) = S" using c(2) True by auto
      ultimately show ?thesis by blast
    next
      case False
      then have "S \<subseteq> set xs" using Cons.prems(2) by auto
      then obtain c where c: "c \<in> set (choose_rev xs k)" "set c = S"
        using Cons.IH [of S k] Cons.prems by auto
      then show ?thesis using Suc by auto
    qed
  qed
qed

lemma combinationStep_ok:
  assumes "r \<in> dom (map_of pa)" "r \<in> dom (map_of rs)"
  shows "\<exists>info. combinationStep rs pa cur r = Inr info
           \<and> set (available info) = set (available cur) \<union> pool pa r
           \<and> distinct (available info)
           \<and> required info
               = js_add (required cur) (js_multiply (double (role_min rs r)) (Finite 2))"
  using assms
  by (auto simp: combinationStep_def pool_def role_min_def set_new_Set distinct_new_Set)

lemma reduce_combinationStep:
  assumes "set c \<subseteq> dom (map_of pa)" "set c \<subseteq> dom (map_of rs)" "distinct (available acc)"
  shows "\<exists>info. lodash_reduce (combinationStep rs pa) c acc = Inr info
           \<and> set (available info) = set (available acc) \<union> (\<Union>r\<in>set c. pool pa r)
           \<and> distinct (available info)
           \<and> required info = requiredOf rs (required acc) c"
  using assms
proof (induction c arbitrary: acc)
  case Nil
  then show ?case by (simp add: requiredOf_def)
next
  case (Cons r c)
  from Cons.prems obtain i where i: "combinationStep rs pa acc r = Inr i"
    "set (available i) = set (available acc) \<union> pool pa r" "distinct (available i)"
    "required i = js_add (required acc) (js_multiply (double (role_min rs r)) (Finite 2))"
    using combinationStep_ok [of r pa rs acc] by auto
  from Cons.IH [of i] Cons.prems i(3) obtain info where
    info: "lodash_reduce (combinationStep rs pa) c i = Inr info"
      "set (available info) = set (available i) \<union> (\<Union>r\<in>set c. pool pa r)"
      "distinct (available info)"
      "required info = requiredOf rs (required i) c"
    by auto
  show ?case using i info by (auto simp: requiredOf_def)
qed

lemma checkCombination_closed:
  assumes "set c \<subseteq> dom (map_of pa)" "set c \<subseteq> dom (map_of rs)"
  shows "checkCombination rs pa acc c = Inr (acc @ deficits rs pa [c])"
proof -
  obtain info where info:
    "lodash_reduce (combinationStep rs pa) c \<lparr>available = new_Set [], required = Finite 0\<rparr>
       = Inr info"
    "set (available info) = (\<Union>r\<in>set c. pool pa r)" "distinct (available info)"
    "required info = requiredOf rs (Finite 0) c"
    using reduce_combinationStep [OF assms, of "\<lparr>available = new_Set [], required = Finite 0\<rparr>"]
    by (auto simp: new_Set_def)
  have "length (available info) = unionSize (pool pa) (set c)"
    using distinct_card [OF info(3)] info(2) by (simp add: unionSize_def)
  then have "js_subtract (required info) (Finite (int (length (available info))))
      = missingFor rs pa c"
    using info(4) by (simp add: missingFor_def)
  then show ?thesis
    using info(1) by (simp add: checkCombination_def deficits_def Let_def)
qed

lemma deficits_append: "deficits rs pa (cs @ ds) = deficits rs pa cs @ deficits rs pa ds"
  by (simp add: deficits_def)

lemma reduce_checkCombination:
  assumes "\<forall>c\<in>set cs. set c \<subseteq> dom (map_of pa) \<and> set c \<subseteq> dom (map_of rs)"
  shows "lodash_reduce (checkCombination rs pa) cs acc = Inr (acc @ deficits rs pa cs)"
  using assms
proof (induction cs arbitrary: acc)
  case Nil
  then show ?case by (simp add: deficits_def)
next
  case (Cons c cs)
  have "checkCombination rs pa acc c = Inr (acc @ deficits rs pa [c])"
    using Cons.prems by (simp add: checkCombination_closed)
  moreover have "lodash_reduce (checkCombination rs pa) cs (acc @ deficits rs pa [c])
      = Inr ((acc @ deficits rs pa [c]) @ deficits rs pa cs)"
    using Cons.IH Cons.prems by simp
  moreover have "deficits rs pa (c # cs) = deficits rs pa [c] @ deficits rs pa cs"
    using deficits_append [of rs pa "[c]" cs] by simp
  ultimately show ?case by simp
qed

lemma combination_in_range:
  assumes "1 \<le> k" "k \<le> length ary"
  shows "Combinatorics_combination ary k = Inr (selections ary k)"
  using assms by (simp add: Combinatorics_combination_def Let_def)

lemma selections_subset:
  assumes "c \<in> set (selections ary k)"
  shows "set c \<subseteq> set ary"
proof (cases "length ary \<le> 30")
  case True
  with assms obtain c' where c': "c = rev c'" "c' \<in> set (choose_rev (rev ary) k)"
    by (auto simp: selections_def)
  from choose_rev_sound [OF c'(2)] c'(1) show ?thesis by simp
next
  case False
  with assms have "c = take 31 ary" by (simp add: selections_def split: if_splits)
  then show ?thesis by (simp add: set_take_subset)
qed

lemma combination_members:
  assumes "length ary \<le> 30" "c \<in> set (selections ary k)"
  shows "length c = k \<and> set c \<subseteq> set ary \<and> (distinct ary \<longrightarrow> distinct c)"
proof -
  from assms obtain c' where c': "c = rev c'" "c' \<in> set (choose_rev (rev ary) k)"
    by (auto simp: selections_def)
  from choose_rev_sound [OF c'(2)] c'(1) show ?thesis by simp
qed

lemma reduce_sizes:
  assumes "set names \<subseteq> dom (map_of pa)" "set names \<subseteq> dom (map_of rs)"
    and "\<forall>k\<in>set ks. 1 \<le> k \<and> k \<le> length names"
  shows "lodash_reduce
           (\<lambda>neededCombinations k.
              case Combinatorics_combination names k of
                Inl e \<Rightarrow> Inl e
              | Inr combinations \<Rightarrow>
                  lodash_reduce (checkCombination rs pa) combinations neededCombinations)
           ks acc
         = Inr (acc @ deficits rs pa (concat (map (selections names) ks)))"
  using assms(3)
proof (induction ks arbitrary: acc)
  case Nil
  then show ?case by (simp add: deficits_def)
next
  case (Cons k ks)
  let ?cs = "selections names k"
  have rng: "1 \<le> k" "k \<le> length names" using Cons.prems by auto
  have keys: "\<forall>c\<in>set ?cs. set c \<subseteq> dom (map_of pa) \<and> set c \<subseteq> dom (map_of rs)"
    using selections_subset [of _ names k] assms(1,2) by blast
  have step: "lodash_reduce (checkCombination rs pa) ?cs acc = Inr (acc @ deficits rs pa ?cs)"
    using reduce_checkCombination [OF keys] .
  show ?case
    using Cons.IH [of "acc @ deficits rs pa ?cs"] Cons.prems step
    by (simp add: combination_in_range [OF rng] deficits_append)
qed

lemma keys_in_dom: "set (map fst rs) \<subseteq> dom (map_of rs)"
  by (auto simp: dom_map_of_conv_image_fst)

lemma calculateRolesNeeded_closed:
  assumes "set (map fst (app_games_roles cfg)) \<subseteq> dom (map_of pa)"
  shows "calculateRolesNeeded cfg pa
         = Inr (deficits (app_games_roles cfg) pa (allCombinations (map fst (app_games_roles cfg))))"
proof -
  have "\<forall>k\<in>set [1 ..< Suc (length (app_games_roles cfg))].
          1 \<le> k \<and> k \<le> length (map fst (app_games_roles cfg))" by auto
  from reduce_sizes [OF assms keys_in_dom this, of "[]"]
  show ?thesis
    by (simp add: calculateRolesNeeded_def lodash_keys_def Let_def allCombinations_def)
qed

lemma allCombinations_members:
  assumes "length names \<le> 30" "c \<in> set (allCombinations names)"
  shows "c \<noteq> [] \<and> set c \<subseteq> set names \<and> (distinct names \<longrightarrow> distinct c)"
proof -
  from assms(2) obtain k where k: "1 \<le> k" "c \<in> set (selections names k)"
    by (auto simp: allCombinations_def)
  from combination_members [OF assms(1) k(2)] k(1) show ?thesis by auto
qed

lemma in_concat_mapI: "k \<in> set ks \<Longrightarrow> x \<in> set (f k) \<Longrightarrow> x \<in> set (concat (map f ks))"
  by auto

lemma allCombinations_complete:
  assumes "length names \<le> 30" "distinct names" "S \<noteq> {}" "S \<subseteq> set names"
  shows "\<exists>c\<in>set (allCombinations names). set c = S"
proof -
  have fin: "finite S" using assms(4) by (rule finite_subset) simp
  have "card S \<le> card (set names)" using assms(4) by (simp add: card_mono)
  then have le: "card S \<le> length names" using assms(2) by (simp add: distinct_card)
  have ge: "1 \<le> card S" using fin assms(3) by (simp add: Suc_leI card_gt_0_iff)
  have "\<exists>c\<in>set (choose_rev (rev names) (card S)). set c = S"
    by (rule choose_rev_complete) (use assms in simp_all)
  then obtain c where c: "c \<in> set (choose_rev (rev names) (card S))" "set c = S" by blast
  have k: "card S \<in> set [1 ..< Suc (length names)]"
    unfolding set_upt atLeastLessThan_iff using le ge by linarith
  have "rev c \<in> set (selections names (card S))"
    using c(1) assms(1) by (simp add: selections_def)
  then have "rev c \<in> set (allCombinations names)"
    unfolding allCombinations_def by (rule in_concat_mapI [OF k])
  moreover have "set (rev c) = S" using c(2) by simp
  ultimately show ?thesis by (rule bexI [rotated])
qed

lemma sum_list_bound:
  assumes "\<And>r. \<bar>f r\<bar> \<le> (b::int)"
  shows "\<bar>\<Sum>r\<leftarrow>c. f r\<bar> \<le> int (length c) * b"
proof (induction c)
  case Nil
  then show ?case by simp
next
  case (Cons r c)
  have "\<bar>f r + (\<Sum>r\<leftarrow>c. f r)\<bar> \<le> \<bar>f r\<bar> + \<bar>\<Sum>r\<leftarrow>c. f r\<bar>" by (rule abs_triangle_ineq)
  also have "\<dots> \<le> b + int (length c) * b" using assms [of r] Cons.IH by linarith
  finally show ?case by (simp add: algebra_simps)
qed

lemma selection_length:
  assumes "distinct (map fst rs)" "length rs \<le> 30" "distinct c" "set c \<subseteq> set (map fst rs)"
  shows "length c \<le> 30"
proof -
  have "length c = card (set c)" using assms(3) by (simp add: distinct_card)
  also have "\<dots> \<le> card (set (map fst rs))" using assms(4) by (simp add: card_mono)
  also have "\<dots> \<le> length (map fst rs)" by (rule card_length)
  finally show ?thesis using assms(2) by simp
qed

lemma requiredOf_distinct:
  assumes "roles_ok rs" "distinct c" "set c \<subseteq> set (map fst rs)"
  shows "requiredOf rs (Finite 0) c = Finite (requiredFor rs (set c))"
    and "\<bar>requiredFor rs (set c)\<bar> < 2 ^ 53"
proof -
  have bound: "\<bar>role_min rs r\<bar> \<le> 2 ^ 47" for r
    using assms(1) by (intro role_min_bound) (simp add: roles_ok_def)
  have len: "length c \<le> 30"
    using assms by (intro selection_length [of rs c]) (simp_all add: roles_ok_def)
  then have "int (length c) * 2 ^ 48 \<le> 30 * 2 ^ 48" by simp
  then have small: "int (length c) * 2 ^ 48 < 2 ^ 53" by simp
  have sum: "(\<Sum>r\<leftarrow>c. role_min rs r * 2) = requiredFor rs (set c)"
    using assms(2) by (simp add: requiredFor_def sum_list_distinct_conv_sum_set)
  have "requiredOf rs (Finite 0) c = Finite (0 + (\<Sum>r\<leftarrow>c. role_min rs r * 2))"
    by (rule requiredOf_exact) (use bound small in simp_all)
  then show "requiredOf rs (Finite 0) c = Finite (requiredFor rs (set c))"
    by (simp add: sum)
  have "\<bar>role_min rs r * 2\<bar> \<le> 2 ^ 48" for r using bound [of r] by simp
  then have "\<bar>\<Sum>r\<leftarrow>c. role_min rs r * 2\<bar> \<le> int (length c) * 2 ^ 48"
    by (rule sum_list_bound)
  with small show "\<bar>requiredFor rs (set c)\<bar> < 2 ^ 53" by (simp add: sum)
qed

lemma missingFor_distinct:
  assumes "roles_ok rs" "distinct c" "set c \<subseteq> set (map fst rs)"
  shows "js_greater (missingFor rs pa c) (Finite 0)
           \<longleftrightarrow> int (unionSize (pool pa) (set c)) < requiredFor rs (set c)"
    and "int (unionSize (pool pa) (set c)) < requiredFor rs (set c) \<Longrightarrow>
         missingFor rs pa c
           = Finite (requiredFor rs (set c) - int (unionSize (pool pa) (set c)))"
proof -
  note req = requiredOf_distinct [OF assms]
  show "js_greater (missingFor rs pa c) (Finite 0)
           \<longleftrightarrow> int (unionSize (pool pa) (set c)) < requiredFor rs (set c)"
    by (simp add: missingFor_def req(1) js_greater_subtract)
  assume "int (unionSize (pool pa) (set c)) < requiredFor rs (set c)"
  with req(2) have "\<bar>requiredFor rs (set c) - int (unionSize (pool pa) (set c))\<bar> < 2 ^ 53"
    by linarith
  then show "missingFor rs pa c
           = Finite (requiredFor rs (set c) - int (unionSize (pool pa) (set c)))"
    by (simp add: missingFor_def req(1) js_subtract_Finite double_exact)
qed

lemma in_deficits:
  "d \<in> set (deficits rs pa cs) \<longleftrightarrow>
     (\<exists>c\<in>set cs. js_greater (missingFor rs pa c) (Finite 0)
                 \<and> d = \<lparr>roles = c, needed = missingFor rs pa c\<rparr>)"
  by (auto simp: deficits_def split: if_splits)

lemma deficits_reported:
  assumes "roles_ok rs"
    and d: "d \<in> set (deficits rs pa (allCombinations (map fst rs)))"
  shows "set (roles d) \<noteq> {} \<and> set (roles d) \<subseteq> set (map fst rs)
      \<and> int (unionSize (pool pa) (set (roles d))) < requiredFor rs (set (roles d))
      \<and> needed d
          = Finite (requiredFor rs (set (roles d)) - int (unionSize (pool pa) (set (roles d))))"
proof -
  from d obtain c where c: "c \<in> set (allCombinations (map fst rs))"
    "js_greater (missingFor rs pa c) (Finite 0)"
    "d = \<lparr>roles = c, needed = missingFor rs pa c\<rparr>"
    by (auto simp: in_deficits)
  have len: "length (map fst rs) \<le> 30" and dist: "distinct (map fst rs)"
    using assms(1) by (simp_all add: roles_ok_def)
  from allCombinations_members [OF len c(1)] dist
  have m: "c \<noteq> []" "set c \<subseteq> set (map fst rs)" "distinct c" by auto
  note mf = missingFor_distinct [OF assms(1) m(3) m(2), of pa]
  have short: "int (unionSize (pool pa) (set c)) < requiredFor rs (set c)"
    using c(2) mf(1) by simp
  show ?thesis using c(3) m short mf(2) [OF short] by simp
qed

lemma deficits_subset_iff:
  assumes "roles_ok rs" and S: "S \<noteq> {}" "S \<subseteq> set (map fst rs)"
  shows "(\<exists>d\<in>set (deficits rs pa (allCombinations (map fst rs))). set (roles d) = S)
           \<longleftrightarrow> int (unionSize (pool pa) S) < requiredFor rs S"
proof
  assume "\<exists>d\<in>set (deficits rs pa (allCombinations (map fst rs))). set (roles d) = S"
  then obtain d where "d \<in> set (deficits rs pa (allCombinations (map fst rs)))"
    "set (roles d) = S" by blast
  with deficits_reported [OF assms(1), of d pa]
  show "int (unionSize (pool pa) S) < requiredFor rs S" by simp
next
  assume short: "int (unionSize (pool pa) S) < requiredFor rs S"
  have len: "length (map fst rs) \<le> 30" and dist: "distinct (map fst rs)"
    using assms(1) by (simp_all add: roles_ok_def)
  obtain c where c: "c \<in> set (allCombinations (map fst rs))" "set c = S"
    using allCombinations_complete [OF len dist S] by blast
  from allCombinations_members [OF len c(1)] dist have dc: "distinct c" by simp
  have sub: "set c \<subseteq> set (map fst rs)" using c(2) S(2) by simp
  have "js_greater (missingFor rs pa c) (Finite 0)"
    using short c(2) missingFor_distinct(1) [OF assms(1) dc sub, of pa] by simp
  then have "\<lparr>roles = c, needed = missingFor rs pa c\<rparr>
      \<in> set (deficits rs pa (allCombinations (map fst rs)))"
    using c(1) unfolding in_deficits by blast
  moreover have "set (roles \<lparr>roles = c, needed = missingFor rs pa c\<rparr>) = S"
    using c(2) by simp
  ultimately show "\<exists>d\<in>set (deficits rs pa (allCombinations (map fst rs))). set (roles d) = S"
    by (rule bexI [rotated])
qed

lemma fst_mapValues: "map fst (lodash_mapValues obj f) = map fst obj"
  by (induction obj) (auto simp: lodash_mapValues_def)

subsection \<open>Reported deficits\<close>

text \<open>
  Claim C1 against the code, with 31 configured roles of which only \<open>r\<close> has a
  non-zero minimum, nobody in the pool of \<open>r\<close> and two users in every other pool.
  The subset of the one role \<open>r\<close> is short (no user against a requirement of 2),
  yet \<open>calculateRolesNeeded\<close> returns the empty list: on an array of 31 names the
  combination package yields no selection of fewer than 31 elements, so the only subset
  examined is the set of all 31 roles, which has its two users.
\<close>

theorem calculateRolesNeeded_many_roles_counterexample:
  "distinct (map fst (app_games_roles many_roles_config))
   \<and> set (map fst (app_games_roles many_roles_config)) \<subseteq> dom (map_of thin_pools)
   \<and> length (app_games_roles many_roles_config) = 31
   \<and> calculateRolesNeeded many_roles_config thin_pools = Inr []
   \<and> {''r''} \<subseteq> set (map fst (app_games_roles many_roles_config))
   \<and> unionSize (pool thin_pools) {''r''} = 0
   \<and> requiredFor (app_games_roles many_roles_config) {''r''} = 2"
proof -
  have h1: "distinct (map fst (app_games_roles many_roles_config))" by code_simp
  have h2: "set (map fst (app_games_roles many_roles_config)) \<subseteq> dom (map_of thin_pools)"
    using keys_in_dom [of thin_pools] by (simp add: thin_pools_def fst_mapValues)
  have h3: "length (app_games_roles many_roles_config) = 31"
    by (simp add: many_roles_config_def)
  have h4: "calculateRolesNeeded many_roles_config thin_pools = Inr []"
    by code_simp
  have h5: "{''r''} \<subseteq> set (map fst (app_games_roles many_roles_config))" by code_simp
  have p: "map_of thin_pools ''r'' = Some []" by code_simp
  have m: "map_of (app_games_roles many_roles_config) ''r'' = Some 1" by code_simp
  have h6: "unionSize (pool thin_pools) {''r''} = 0"
    by (simp add: unionSize_def pool_def p)
  have h7: "requiredFor (app_games_roles many_roles_config) {''r''} = 2"
    by (simp add: requiredFor_def role_min_def m)
  from h1 h2 h3 h4 h5 h6 h7 show ?thesis by (intro conjI)
qed

text \<open>
  The shortfall is computed in doubles: with a minimum of \<open>2^53\<close> and one player the
  requirement is \<open>2^54\<close>, and the reported shortfall is \<open>2^54\<close> as well, the
  double nearest to \<open>2^54 - 1\<close>.
\<close>

lemma calculateRolesNeeded_rounds:
  "calculateRolesNeeded large_minimum_config one_tank
     = Inr [\<lparr>roles = [''tank''], needed = Finite (2 ^ 54)\<rparr>]
   \<and> requiredFor (app_games_roles large_minimum_config) {''tank''} = 2 ^ 54
   \<and> unionSize (pool one_tank) {''tank''} = 1"
proof (intro conjI)
  show "calculateRolesNeeded large_minimum_config one_tank
     = Inr [\<lparr>roles = [''tank''], needed = Finite (2 ^ 54)\<rparr>]"
    by code_simp
  show "requiredFor (app_games_roles large_minimum_config) {''tank''} = 2 ^ 54"
    by (simp add: requiredFor_def role_min_def large_minimum_config_def)
  show "unionSize (pool one_tank) {''tank''} = 1"
    by (simp add: unionSize_def pool_def one_tank_def)
qed

text \<open>
  Claim C1, amended. For every role configuration within the exact range of the module
  (an object, so with distinct role names; at most 30 roles; minimums of magnitude at
  most \<open>2^47\<close>) and every availability mapping that has a pool for each configured
  role, \<open>calculateRolesNeeded\<close> returns a list \<open>ds\<close> such that: a non-empty subset
  \<open>S\<close> of the configured roles is the role set of some entry of \<open>ds\<close> if and only
  if the number of distinct users in the pools of \<open>S\<close> is strictly smaller than the
  sum of \<open>min \<times> 2\<close> over \<open>S\<close>; every entry is such a subset and carries
  \<open>needed = required - unionSize\<close>, exactly; and with no configured roles \<open>ds\<close>
  is empty.
\<close>

theorem calculateRolesNeeded_deficits:
  assumes "config_ok cfg"
    and "set (map fst (app_games_roles cfg)) \<subseteq> dom (map_of pa)"
  shows "\<exists>ds. calculateRolesNeeded cfg pa = Inr ds
     \<and> (\<forall>S. S \<noteq> {} \<and> S \<subseteq> set (map fst (app_games_roles cfg)) \<longrightarrow>
           ((\<exists>d\<in>set ds. set (roles d) = S)
             \<longleftrightarrow> int (unionSize (pool pa) S) < requiredFor (app_games_roles cfg) S))
     \<and> (\<forall>d\<in>set ds. set (roles d) \<noteq> {} \<and> set (roles d) \<subseteq> set (map fst (app_games_roles cfg))
           \<and> int (unionSize (pool pa) (set (roles d))) < requiredFor (app_games_roles cfg) (set (roles d))
           \<and> needed d = Finite (requiredFor (app_games_roles cfg) (set (roles d))
                                  - int (unionSize (pool pa) (set (roles d)))))
     \<and> (app_games_roles cfg = [] \<longrightarrow> ds = [])"
proof -
  let ?rs = "app_games_roles cfg"
  let ?names = "map fst ?rs"
  let ?ds = "deficits ?rs pa (allCombinations ?names)"
  have ok: "roles_ok ?rs" using assms(1) by (simp add: config_ok_def)
  have closed: "calculateRolesNeeded cfg pa = Inr ?ds"
    using calculateRolesNeeded_closed [OF assms(2)] .
  have p2: "\<forall>S. S \<noteq> {} \<and> S \<subseteq> set ?names \<longrightarrow>
           ((\<exists>d\<in>set ?ds. set (roles d) = S)
              \<longleftrightarrow> int (unionSize (pool pa) S) < requiredFor ?rs S)"
    using deficits_subset_iff [OF ok] by (intro allI impI) (elim conjE)
  have p3: "\<forall>d\<in>set ?ds. set (roles d) \<noteq> {} \<and> set (roles d) \<subseteq> set ?names
      \<and> int (unionSize (pool pa) (set (roles d))) < requiredFor ?rs (set (roles d))
      \<and> needed d = Finite (requiredFor ?rs (set (roles d))
                             - int (unionSize (pool pa) (set (roles d))))"
    using deficits_reported [OF ok] by (intro ballI)
  have p4: "?rs = [] \<longrightarrow> ?ds = []"
    by (simp add: allCombinations_def deficits_def)
  show ?thesis
    apply (rule exI [of _ ?ds])
    apply (rule conjI [OF closed])
    apply (rule conjI [OF p2])
    apply (rule conjI [OF p3])
    apply (rule p4)
    done
qed

theorem calculateRolesNeeded_deficits_witness:
  "config_ok scenario_config
   \<and> set (map fst (app_games_roles scenario_config)) \<subseteq> dom (map_of overlapping_pools)
   \<and> (\<exists>ds. calculateRolesNeeded scenario_config overlapping_pools = Inr ds
         \<and> (\<exists>d\<in>set ds. set (roles d) = {''tank'', ''healer''} \<and> needed d = Finite 2))"
proof -
  let ?S = "{''tank'', ''healer''}"
  have h1: "config_ok scenario_config" by code_simp
  have h2: "set (map fst (app_games_roles scenario_config)) \<subseteq> dom (map_of overlapping_pools)"
    by (simp add: scenario_config_def overlapping_pools_def)
  have u: "unionSize (pool overlapping_pools) ?S = 2"
    by (simp add: unionSize_def pool_def overlapping_pools_def)
  have r: "requiredFor (app_games_roles scenario_config) ?S = 4"
    by (simp add: requiredFor_def role_min_def scenario_config_def)
  have sub: "?S \<noteq> {} \<and> ?S \<subseteq> set (map fst (app_games_roles scenario_config))"
    by (simp add: scenario_config_def)
  have short: "int (unionSize (pool overlapping_pools) ?S)
      < requiredFor (app_games_roles scenario_config) ?S"
    by (simp add: u r)
  from calculateRolesNeeded_deficits [OF h1 h2] obtain ds where
    ds: "calculateRolesNeeded scenario_config overlapping_pools = Inr ds"
    and iff: "\<forall>S. S \<noteq> {} \<and> S \<subseteq> set (map fst (app_games_roles scenario_config)) \<longrightarrow>
           ((\<exists>d\<in>set ds. set (roles d) = S)
             \<longleftrightarrow> int (unionSize (pool overlapping_pools) S)
                   < requiredFor (app_games_roles scenario_config) S)"
    and each: "\<forall>d\<in>set ds. set (roles d) \<noteq> {}
           \<and> set (roles d) \<subseteq> set (map fst (app_games_roles scenario_config))
           \<and> int (unionSize (pool overlapping_pools) (set (roles d)))
               < requiredFor (app_games_roles scenario_config) (set (roles d))
           \<and> needed d = Finite (requiredFor (app_games_roles scenario_config) (set (roles d))
                                  - int (unionSize (pool overlapping_pools) (set (roles d))))"
    by (elim exE conjE)
  from iff [rule_format, OF sub] short
  have "\<exists>d\<in>set ds. set (roles d) = ?S" by (rule iffD2)
  then obtain d where d: "d \<in> set ds" "set (roles d) = ?S"
    by (elim bexE)
  from each [rule_format, OF d(1)]
  have "needed d = Finite (requiredFor (app_games_roles scenario_config) (set (roles d))
                          - int (unionSize (pool overlapping_pools) (set (roles d))))"
    by (elim conjE)
  then have n: "needed d = Finite 2" by (simp add: d(2) u r)
  have "\<exists>d\<in>set ds. set (roles d) = ?S \<and> needed d = Finite 2"
    using d n by (intro bexI [of _ d] conjI)
  with ds have "\<exists>ds. calculateRolesNeeded scenario_config overlapping_pools = Inr ds
         \<and> (\<exists>d\<in>set ds. set (roles d) = ?S \<and> needed d = Finite 2)"
    by (intro exI [of _ ds] conjI)
  with h1 h2 show ?thesis by (intro conjI)
qed

section \<open>Launch conditions\<close>

subsection \<open>The calculator on the launch conditions\<close>

lemma keys_present:
  assumes "map fst pa = map fst rs"
  shows "set (map fst rs) \<subseteq> dom (map_of pa)"
proof -
  have "dom (map_of pa) = set (map fst pa)" by (simp add: dom_map_of_conv_image_fst)
  with assms show ?thesis by simp
qed

lemma deficits_nonempty_iff:
  assumes "roles_ok rs"
  shows "deficits rs pa (allCombinations (map fst rs)) \<noteq> [] \<longleftrightarrow> has_deficit rs (pool pa)"
proof
  assume "deficits rs pa (allCombinations (map fst rs)) \<noteq> []"
  then obtain d where d: "d \<in> set (deficits rs pa (allCombinations (map fst rs)))"
    by (cases "deficits rs pa (allCombinations (map fst rs))") auto
  from deficits_reported [OF assms d]
  have "set (roles d) \<in> Pow (set (map fst rs))" "set (roles d) \<noteq> {}"
    "int (unionSize (pool pa) (set (roles d))) < requiredFor rs (set (roles d))"
    by auto
  then show "has_deficit rs (pool pa)" unfolding has_deficit_def by blast
next
  assume "has_deficit rs (pool pa)"
  then obtain S where S: "S \<subseteq> set (map fst rs)" "S \<noteq> {}"
    "int (unionSize (pool pa) S) < requiredFor rs S"
    unfolding has_deficit_def by blast
  from deficits_subset_iff [OF assms S(2) S(1), of pa] S(3)
  obtain d where "d \<in> set (deficits rs pa (allCombinations (map fst rs)))" by blast
  then show "deficits rs pa (allCombinations (map fst rs)) \<noteq> []" by auto
qed

lemma calculator_reports_closed:
  assumes "map fst pa = map fst (app_games_roles cfg)"
  shows "calculator_reports cfg pa
           \<longleftrightarrow> deficits (app_games_roles cfg) pa (allCombinations (map fst (app_games_roles cfg)))
                 \<noteq> []"
  by (simp add: calculator_reports_def calculateRolesNeeded_closed [OF keys_present [OF assms]])

lemma calculateRolesNeeded_reports:
  assumes "config_ok cfg" "map fst pa = map fst (app_games_roles cfg)"
  shows "calculator_reports cfg pa \<longleftrightarrow> has_deficit (app_games_roles cfg) (pool pa)"
  using deficits_nonempty_iff [of "app_games_roles cfg" pa] assms(1)
  by (simp add: calculator_reports_closed [OF assms(2)] config_ok_def)

lemma set_lodash_intersection: "set (lodash_intersection xs ys) = set xs \<inter> set ys"
  by (auto simp: lodash_intersection_def set_fold_Set_add)

lemma map_of_mapValues: "map_of (lodash_mapValues obj f) k = map_option f (map_of obj k)"
  by (induction obj) (auto simp: lodash_mapValues_def)

lemma pool_intersected:
  "pool (lodash_mapValues pa (\<lambda>available. new_Set (lodash_intersection available R)))
     = (\<lambda>r. pool pa r \<inter> set R)"
  by (rule ext)
     (simp add: pool_def map_of_mapValues set_new_Set set_lodash_intersection split: option.split)

lemma size_intersected:
  "length (new_Set (lodash_intersection xs ys)) = card (set xs \<inter> set ys)"
  by (simp add: length_new_Set set_lodash_intersection)

lemma deficits_pools:
  assumes "pool pa' = pool pa"
  shows "deficits rs pa' cs = deficits rs pa cs"
proof -
  have "missingFor rs pa' c = missingFor rs pa c" for c
    by (simp add: missingFor_def assms)
  then show ?thesis by (simp add: deficits_def cong: if_cong)
qed

lemma fst_ready_pools: "map fst (ready_pools s) = map fst (playersAvailable s)"
  by (induction "playersAvailable s" arbitrary: s) (auto simp: ready_pools_def)

lemma map_of_ready_pools:
  "map_of (map (\<lambda>(role, players). (role, f players)) pa) r = map_option f (map_of pa r)"
  by (induction pa) auto

lemma pool_ready_pools:
  "pool (ready_pools s) = (\<lambda>r. pool (playersAvailable s) r \<inter> set (readiesReceived s))"
  by (rule ext)
     (auto simp: pool_def ready_pools_def map_of_ready_pools split: option.split)

lemma launchConditionsExecutor_spec:
  assumes ok: "state_ok cfg s"
  shows "launchConditionsExecutor cfg s = Inr (spec_launchConditions cfg s)"
proof -
  let ?rs = "app_games_roles cfg"
  let ?pa = "playersAvailable s"
  let ?R = "readiesReceived s"
  let ?all = "allCombinations (map fst ?rs)"
  let ?final = "lodash_mapValues ?pa (\<lambda>available. new_Set (lodash_intersection available ?R))"
  have keys: "map fst ?pa = map fst ?rs" using ok by (simp add: state_ok_def)
  have keys': "map fst ?final = map fst ?rs" using keys by (simp add: fst_mapValues)
  have keys'': "map fst (ready_pools s) = map fst ?rs" using keys by (simp add: fst_ready_pools)
  have cap: "length (captainsAvailable s) = card (set (captainsAvailable s))"
    using ok by (simp add: state_ok_def distinct_card)
  note raw = calculateRolesNeeded_closed [OF keys_present [OF keys]]
  note fin = calculateRolesNeeded_closed [OF keys_present [OF keys']]
  have same: "deficits ?rs ?final ?all = deficits ?rs (ready_pools s) ?all"
    by (rule deficits_pools) (simp add: pool_intersected pool_ready_pools)
  show ?thesis
    unfolding launchConditionsExecutor_def spec_launchConditions_def Let_def
    by (simp add: raw fin same cap size_intersected
        calculator_reports_closed [OF keys] calculator_reports_closed [OF keys''])
qed

lemma spec_launchConditions_compact:
  "lodash_compact (lodash_flatten [spec_launchConditions cfg s]) = spec_launchConditions cfg s"
  by (simp add: lodash_compact_def lodash_flatten_def spec_launchConditions_def Let_def)

lemma spec_launchConditions_on_sets:
  assumes cfg: "config_ok cfg" and ok: "state_ok cfg s"
  shows "spec_launchConditions cfg s = launchConditions_on_sets cfg s"
proof -
  have keys: "map fst (playersAvailable s) = map fst (app_games_roles cfg)"
    using ok by (simp add: state_ok_def)
  have keys'': "map fst (ready_pools s) = map fst (app_games_roles cfg)"
    using keys by (simp add: fst_ready_pools)
  show ?thesis
    unfolding spec_launchConditions_def launchConditions_on_sets_def Let_def
    by (simp add: calculateRolesNeeded_reports [OF cfg keys]
        calculateRolesNeeded_reports [OF cfg keys''] pool_ready_pools)
qed

subsection \<open>The ordered evaluation\<close>

text \<open>
  Claim C2. For every state whose registry is well formed (one pool per configured role,
  no value twice in a set), under a configuration on which the enumeration of the role
  subsets ends, \<open>checkLaunchConditions\<close> resolves with exactly the tag list of the
  ordered evaluation \<open>spec_launchConditions\<close>, and stores that list in
  \<open>missingLaunchConditions\<close>: \<open>notAvailable\<close> with fewer than two captains, else
  \<open>notAvailable\<close> when the calculator reports a deficit on the raw pools, else
  \<open>readyNotChecked\<close> with no attempt in progress, else \<open>notReady\<close> when fewer than
  two captains are ready or the calculator reports a deficit on the pools intersected
  with the ready registry, else the empty list. Under a configuration within the exact
  range of the calculator (at most 30 roles, minimums of magnitude at most \<open>2^47\<close>)
  the calculator reports a deficit exactly when some non-empty subset of the roles has
  fewer distinct users than it requires, and the evaluation is the one on sets.
\<close>

theorem checkLaunchConditions_ordered:
  assumes "state_ok cfg s" and "enumeration_ends cfg"
  shows "checkLaunchConditions cfg s
           = Inr (spec_launchConditions cfg s,
                  s\<lparr>missingLaunchConditions := Some (spec_launchConditions cfg s)\<rparr>)
         \<and> (config_ok cfg \<longrightarrow> spec_launchConditions cfg s = launchConditions_on_sets cfg s)"
proof (intro conjI impI)
  show "checkLaunchConditions cfg s
           = Inr (spec_launchConditions cfg s,
                  s\<lparr>missingLaunchConditions := Some (spec_launchConditions cfg s)\<rparr>)"
    unfolding checkLaunchConditions_def checkLaunchConditions_all_def
      checkLaunchConditions_then_def
    by (simp add: launchConditionsExecutor_spec [OF assms(1)] spec_launchConditions_compact
        Let_def)
next
  assume "config_ok cfg"
  then show "spec_launchConditions cfg s = launchConditions_on_sets cfg s"
    using assms(1) by (rule spec_launchConditions_on_sets)
qed

theorem checkLaunchConditions_ordered_witness:
  "state_ok scenario_config one_captain_ready
   \<and> enumeration_ends scenario_config
   \<and> config_ok scenario_config
   \<and> checkLaunchConditions scenario_config one_captain_ready
       = Inr ([''notReady''],
              one_captain_ready\<lparr>missingLaunchConditions := Some [''notReady'']\<rparr>)
   \<and> launchConditions_on_sets scenario_config one_captain_ready = [''notReady'']"
proof -
  have h1: "config_ok scenario_config" by code_simp
  have h2: "state_ok scenario_config one_captain_ready" by code_simp
  have h3: "enumeration_ends scenario_config" by code_simp
  have v: "fst (projr (checkLaunchConditions scenario_config one_captain_ready)) = [''notReady'']"
    by code_simp
  note inst = checkLaunchConditions_ordered [OF h2 h3]
  from inst v have sp: "spec_launchConditions scenario_config one_captain_ready = [''notReady'']"
    by simp
  from inst h1 have "spec_launchConditions scenario_config one_captain_ready
      = launchConditions_on_sets scenario_config one_captain_ready"
    by (elim conjE) (rule mp)
  with sp have sets: "launchConditions_on_sets scenario_config one_captain_ready = [''notReady'']"
    by simp
  from inst sp have "checkLaunchConditions scenario_config one_captain_ready
       = Inr ([''notReady''],
              one_captain_ready\<lparr>missingLaunchConditions := Some [''notReady'']\<rparr>)"
    by simp
  with h1 h2 h3 sets show ?thesis by (intro conjI)
qed

text \<open>
  With 31 roles the calculator examines the set of all roles only, and the ordered
  evaluation of the module is no longer the one on sets: on the registry in which nobody
  plays \<open>r\<close> the module finds the availability conditions met, although the role
  \<open>r\<close> alone is short.
\<close>

lemma checkLaunchConditions_many_roles:
  "state_ok many_roles_config many_roles_state
   \<and> enumeration_ends many_roles_config
   \<and> checkLaunchConditions many_roles_config many_roles_state
       = Inr ([''readyNotChecked''],
              many_roles_state\<lparr>missingLaunchConditions := Some [''readyNotChecked'']\<rparr>)
   \<and> spec_launchConditions many_roles_config many_roles_state = [''readyNotChecked'']
   \<and> launchConditions_on_sets many_roles_config many_roles_state = [''notAvailable'']"
proof -
  have h1: "state_ok many_roles_config many_roles_state" by code_simp
  have h2: "enumeration_ends many_roles_config" by code_simp
  have v: "fst (projr (checkLaunchConditions many_roles_config many_roles_state))
      = [''readyNotChecked'']"
    by code_simp
  have eq: "checkLaunchConditions many_roles_config many_roles_state
      = Inr (spec_launchConditions many_roles_config many_roles_state,
             many_roles_state\<lparr>missingLaunchConditions :=
               Some (spec_launchConditions many_roles_config many_roles_state)\<rparr>)"
    unfolding checkLaunchConditions_def checkLaunchConditions_all_def
      checkLaunchConditions_then_def
    by (simp add: launchConditionsExecutor_spec [OF h1] spec_launchConditions_compact Let_def)
  from eq v have sp: "spec_launchConditions many_roles_config many_roles_state
      = [''readyNotChecked'']"
    by simp
  have p: "map_of thin_pools ''r'' = Some []" by code_simp
  have m: "map_of (app_games_roles many_roles_config) ''r'' = Some 1" by code_simp
  have r: "''r'' \<in> set (map fst (app_games_roles many_roles_config))" by code_simp
  have short: "int (unionSize (pool thin_pools) {''r''})
      < requiredFor (app_games_roles many_roles_config) {''r''}"
    by (simp add: unionSize_def pool_def requiredFor_def role_min_def p m)
  have "{''r''} \<in> Pow (set (map fst (app_games_roles many_roles_config)))"
    using r by simp
  with short have d: "has_deficit (app_games_roles many_roles_config) (pool thin_pools)"
    unfolding has_deficit_def by (intro bexI [of _ "{''r''}"] conjI) simp_all
  have caps: "card (set (captainsAvailable many_roles_state)) = 2"
    by (simp add: many_roles_state_def)
  have pa: "playersAvailable many_roles_state = thin_pools"
    by (simp add: many_roles_state_def)
  have sets: "launchConditions_on_sets many_roles_config many_roles_state = [''notAvailable'']"
    unfolding launchConditions_on_sets_def Let_def by (simp add: caps pa d)
  from eq sp have "checkLaunchConditions many_roles_config many_roles_state
       = Inr ([''readyNotChecked''],
              many_roles_state\<lparr>missingLaunchConditions := Some [''readyNotChecked'']\<rparr>)"
    by simp
  with h1 h2 sp sets show ?thesis by (intro conjI)
qed

section \<open>The launch state machine\<close>

subsection \<open>Shapes of the handlers and invariants of runs\<close>

lemma prepareStatusMessage_Inr:
  assumes "prepareStatusMessage cfg s = Inr s'"
  shows "\<exists>m. s' = s\<lparr>currentStatusMessage := Some m\<rparr>"
proof (cases "calculateRolesNeeded cfg (playersAvailable s)")
  case (Inl e)
  with assms show ?thesis by (simp add: prepareStatusMessage_def)
next
  case (Inr ds)
  with assms have "s' = s\<lparr>currentStatusMessage := Some
      \<lparr>msg_playersAvailable = lodash_mapValues (playersAvailable s) (map (getFilteredUser cfg)),
       msg_captainsAvailable = map (getFilteredUser cfg) (captainsAvailable s),
       msg_rolesNeeded = map (\<lambda>neededRole. neededRole) ds,
       msg_missingLaunchConditions = missingLaunchConditions s\<rparr>\<rparr>"
    by (simp add: prepareStatusMessage_def)
  then show ?thesis by (rule exI)
qed

lemma prepareStatusMessage_ok:
  assumes "map fst (playersAvailable s) = map fst (app_games_roles cfg)"
  shows "prepareStatusMessage cfg s = Inr (s\<lparr>currentStatusMessage := Some (statusOf cfg s)\<rparr>)"
  using calculateRolesNeeded_closed [OF keys_present [OF assms]]
  by (simp add: prepareStatusMessage_def statusOf_def)

lemma attemptLaunch_in_progress:
  assumes "launchAttemptInProgress s"
  shows "(\<exists>e. attemptLaunch cfg s = (Some e, s))
     \<or> (\<exists>m. attemptLaunch cfg s
            = (None, s\<lparr>currentStatusMessage := Some m,
                        emitted := emitted s @ [Io_sockets_emit (LaunchStatusUpdated (Some m))]\<rparr>))"
proof (cases "prepareStatusMessage cfg s")
  case (Inl e)
  with assms have "attemptLaunch cfg s = (Some e, s)"
    by (simp add: attemptLaunch_def attemptLaunch_sync_def)
  then show ?thesis by blast
next
  case (Inr s1)
  then obtain m where "s1 = s\<lparr>currentStatusMessage := Some m\<rparr>"
    using prepareStatusMessage_Inr by blast
  with Inr assms have "attemptLaunch cfg s
            = (None, s\<lparr>currentStatusMessage := Some m,
                        emitted := emitted s @ [Io_sockets_emit (LaunchStatusUpdated (Some m))]\<rparr>)"
    by (simp add: attemptLaunch_def attemptLaunch_sync_def emit_def)
  then show ?thesis by blast
qed

lemma attemptLaunch_then_shape:
  "same_registry s (snd (attemptLaunch_then cfg settled s))
   \<and> (same_window s (snd (attemptLaunch_then cfg settled s))
        \<or> window_opened s (snd (attemptLaunch_then cfg settled s)))"
proof (cases settled)
  case (Inl e)
  then show ?thesis
    by (simp add: attemptLaunch_then_def same_registry_def same_window_def)
next
  case (Inr lc)
  let ?s1 = "snd (checkLaunchConditions_then lc s)"
  have s1: "?s1 = s\<lparr>missingLaunchConditions := Some (lodash_compact (lodash_flatten lc))\<rparr>"
    by (simp add: checkLaunchConditions_then_def Let_def)
  show ?thesis
  proof (cases "prepareStatusMessage cfg ?s1")
    case (Inl e)
    with Inr s1 show ?thesis
      by (simp add: attemptLaunch_then_def same_registry_def same_window_def Let_def)
  next
    case (Inr s2)
    then obtain m where m: "s2 = ?s1\<lparr>currentStatusMessage := Some m\<rparr>"
      using prepareStatusMessage_Inr by blast
    with \<open>settled = Inr lc\<close> Inr s1 show ?thesis
      by (simp add: attemptLaunch_then_def same_registry_def same_window_def window_opened_def
          Let_def emit_def new_Set_def)
  qed
qed

lemma attemptLaunch_then_emitted:
  "\<exists>es. emitted (snd (attemptLaunch_then cfg settled s)) = emitted s @ es"
proof (cases settled)
  case (Inl e)
  then show ?thesis by (simp add: attemptLaunch_then_def)
next
  case (Inr lc)
  let ?s1 = "snd (checkLaunchConditions_then lc s)"
  have s1: "?s1 = s\<lparr>missingLaunchConditions := Some (lodash_compact (lodash_flatten lc))\<rparr>"
    by (simp add: checkLaunchConditions_then_def Let_def)
  show ?thesis
  proof (cases "prepareStatusMessage cfg ?s1")
    case (Inl e)
    with Inr s1 show ?thesis
      by (simp add: attemptLaunch_then_def Let_def)
  next
    case (Inr s2)
    then obtain m where m: "s2 = ?s1\<lparr>currentStatusMessage := Some m\<rparr>"
      using prepareStatusMessage_Inr by blast
    with \<open>settled = Inr lc\<close> Inr s1 show ?thesis
      by (simp add: attemptLaunch_then_def Let_def emit_def)
  qed
qed

lemma attemptLaunch_idle:
  assumes "\<not> launchAttemptInProgress s"
  shows "attemptLaunch cfg s = attemptLaunch_then cfg (checkLaunchConditions_all cfg s) s"
  using assms by (simp add: attemptLaunch_def attemptLaunch_sync_def)

lemma attemptLaunch_shape:
  "same_registry s (snd (attemptLaunch cfg s))
   \<and> (same_window s (snd (attemptLaunch cfg s))
        \<or> \<not> launchAttemptInProgress s \<and> window_opened s (snd (attemptLaunch cfg s)))"
proof (cases "launchAttemptInProgress s")
  case True
  from attemptLaunch_in_progress [OF True, of cfg] show ?thesis
    by (auto simp: same_registry_def same_window_def)
next
  case False
  with attemptLaunch_then_shape [of s cfg "checkLaunchConditions_all cfg s"] show ?thesis
    by (simp add: attemptLaunch_idle)
qed

lemma distinct_Set_add: "distinct s \<Longrightarrow> distinct (Set_add x s)"
  by (simp add: Set_add_def)

lemma distinct_Set_delete: "distinct s \<Longrightarrow> distinct (Set_delete x s)"
  by (simp add: Set_delete_def distinct_removeAll)

lemma map_pools_keys:
  assumes "\<And>role players. fst (h (role, players)) = role"
  shows "map fst (map h pa) = map fst pa"
  using assms by (induction pa) auto

lemma map_pools_distinct:
  assumes "\<And>role players. distinct players \<Longrightarrow> distinct (snd (h (role, players)))"
    and "list_all (\<lambda>(role, players). distinct players) pa"
  shows "list_all (\<lambda>(role, players). distinct players) (map h pa)"
  using assms(2)
proof (induction pa)
  case Nil
  then show ?case by simp
next
  case (Cons p pa)
  obtain role players where p: "p = (role, players)" by (cases p)
  obtain role' players' where h: "h (role, players) = (role', players')" by (cases "h (role, players)")
  from Cons.prems p have "distinct players" by simp
  from assms(1) [OF this, of role] h have "distinct players'" by simp
  with Cons p h show ?case by simp
qed

lemma registry_update_shape:
  assumes s': "s' = s\<lparr>playersAvailable := map h (playersAvailable s), captainsAvailable := ca\<rparr>"
    and keys: "\<And>role players. fst (h (role, players)) = role"
    and dist: "\<And>role players. distinct players \<Longrightarrow> distinct (snd (h (role, players)))"
    and cap: "distinct (captainsAvailable s) \<Longrightarrow> distinct ca"
  shows "\<exists>pa ca. s' = s\<lparr>playersAvailable := pa, captainsAvailable := ca\<rparr>
           \<and> map fst pa = map fst (playersAvailable s)
           \<and> (distinct (captainsAvailable s) \<longrightarrow> distinct ca)
           \<and> (list_all (\<lambda>(role, players). distinct players) (playersAvailable s)
                \<longrightarrow> list_all (\<lambda>(role, players). distinct players) pa)"
proof (intro exI conjI impI)
  show "s' = s\<lparr>playersAvailable := map h (playersAvailable s), captainsAvailable := ca\<rparr>"
    by (rule s')
  show "map fst (map h (playersAvailable s)) = map fst (playersAvailable s)"
    by (rule map_pools_keys) (rule keys)
  show "distinct ca" if "distinct (captainsAvailable s)" using that by (rule cap)
  show "list_all (\<lambda>(role, players). distinct players) (map h (playersAvailable s))"
    if "list_all (\<lambda>(role, players). distinct players) (playersAvailable s)"
    using dist that by (rule map_pools_distinct)
qed

lemma updateAvailability_Inr:
  assumes "updateAvailability ur u ds c s = Inr s'"
  shows "\<exists>pa ca. s' = s\<lparr>playersAvailable := pa, captainsAvailable := ca\<rparr>
           \<and> map fst pa = map fst (playersAvailable s)
           \<and> (distinct (captainsAvailable s) \<longrightarrow> distinct ca)
           \<and> (list_all (\<lambda>(role, players). distinct players) (playersAvailable s)
                \<longrightarrow> list_all (\<lambda>(role, players). distinct players) pa)"
proof (cases "ur u")
  case None
  with assms show ?thesis by (simp add: updateAvailability_def)
next
  case (Some aspects)
  let ?f = "\<lambda>(role, players).
              (role, if lodash_includes ds role then Set_add u players else Set_delete u players)"
  let ?g = "\<lambda>(role, players). (role, Set_delete u players)"
  show ?thesis
  proof (cases "lodash_includes aspects ''start''")
    case True
    with assms Some have
      "s' = s\<lparr>playersAvailable := map ?g (playersAvailable s),
               captainsAvailable := Set_delete u (captainsAvailable s)\<rparr>"
      by (simp add: updateAvailability_def Let_def)
    then show ?thesis
      by (rule registry_update_shape) (simp_all add: distinct_Set_delete)
  next
    case False
    show ?thesis
    proof (cases "\<not> lodash_includes aspects ''captain'' \<and> c")
      case True
      with assms Some False have
        "s' = s\<lparr>playersAvailable := map ?f (playersAvailable s),
               captainsAvailable := Set_add u (captainsAvailable s)\<rparr>"
        by (simp add: updateAvailability_def Let_def)
      then show ?thesis
        by (rule registry_update_shape) (simp_all add: distinct_Set_delete distinct_Set_add)
    next
      case nc: False
      with assms Some False have
        "s' = s\<lparr>playersAvailable := map ?f (playersAvailable s),
               captainsAvailable := Set_delete u (captainsAvailable s)\<rparr>"
        by (auto simp: updateAvailability_def Let_def split: if_splits)
      then show ?thesis
        by (rule registry_update_shape) (simp_all add: distinct_Set_delete distinct_Set_add)
    qed
  qed
qed

lemma updateUserAvailability_eq:
  "updateUserAvailability cfg ur u ds c s =
     (case updateAvailability ur u ds c s of
        Inl e \<Rightarrow> (Some e, s)
      | Inr s1 \<Rightarrow>
          attemptLaunch cfg
            (emit (SendMessageToUser u
                     (UserAvailabilityUpdated
                        (lodash_mapValues (playersAvailable s1) (Set_has u))
                        (Set_has u (captainsAvailable s1))))
               s1))"
proof (cases "updateAvailability ur u ds c s")
  case (Inl e)
  then show ?thesis
    by (simp add: updateUserAvailability_def updateUserAvailability_sync_def)
next
  case (Inr s1)
  then show ?thesis
    by (simp add: updateUserAvailability_def updateUserAvailability_sync_def attemptLaunch_def)
qed

lemma window_inv_same:
  assumes "window_inv s" "same_window s s'"
  shows "window_inv s'"
  using assms by (auto simp: window_inv_def same_window_def split: if_splits)

lemma window_inv_opened:
  assumes "window_inv s" "\<not> launchAttemptInProgress s" "window_opened s s'"
  shows "window_inv s'"
  using assms by (auto simp: window_inv_def window_opened_def split: if_splits)

lemma attemptLaunch_inv:
  assumes "window_inv s"
  shows "window_inv (snd (attemptLaunch cfg s))"
  using attemptLaunch_shape [of s cfg] assms window_inv_same window_inv_opened by blast

lemma attemptLaunch_then_inv:
  assumes "window_inv s" "\<not> launchAttemptInProgress s"
  shows "window_inv (snd (attemptLaunch_then cfg settled s))"
  using attemptLaunch_then_shape [of s cfg settled] assms window_inv_same window_inv_opened
  by blast

lemma emit_fields:
  "captainsAvailable (emit e s) = captainsAvailable s"
  "playersAvailable (emit e s) = playersAvailable s"
  "launchAttemptInProgress (emit e s) = launchAttemptInProgress s"
  "readiesReceived (emit e s) = readiesReceived s"
  "timers (emit e s) = timers s"
  "missingLaunchConditions (emit e s) = missingLaunchConditions s"
  "currentStatusMessage (emit e s) = currentStatusMessage s"
  "emitted (emit e s) = emitted s @ [e]"
  by (simp_all add: emit_def)

lemma window_inv_emit: "window_inv (emit e s) = window_inv s"
  by (simp add: window_inv_def emit_fields)

lemma updateAvailability_window:
  assumes "updateAvailability ur u ds c s = Inr s'"
  shows "same_window s s'"
  using updateAvailability_Inr [OF assms] by (auto simp: same_window_def)

lemma updateUserAvailability_inv:
  assumes "window_inv s"
  shows "window_inv (snd (updateUserAvailability cfg ur u ds c s))"
proof (cases "updateAvailability ur u ds c s")
  case (Inl e)
  with assms show ?thesis by (simp add: updateUserAvailability_eq)
next
  case (Inr s1)
  have "window_inv s1" using assms updateAvailability_window [OF Inr] by (rule window_inv_same)
  then show ?thesis
    using Inr by (simp add: updateUserAvailability_eq attemptLaunch_inv window_inv_emit)
qed

lemma updateUserReadyStatus_inv:
  assumes "window_inv s"
  shows "window_inv (updateUserReadyStatus u ready s)"
  using assms by (auto simp: updateUserReadyStatus_def window_inv_def emit_fields split: if_splits)

lemma updateUserReadyStatus_idle:
  assumes "\<not> launchAttemptInProgress s"
  shows "updateUserReadyStatus u ready s = emit (SendMessageToUser u (UserReadyStatusUpdated ready)) s"
  using assms by (simp add: updateUserReadyStatus_def)

lemma attemptLaunch_sync_in_progress:
  assumes "launchAttemptInProgress s"
  shows "attemptLaunch_sync cfg s = (attemptLaunch cfg s, None)"
proof (cases "prepareStatusMessage cfg s")
  case (Inl e)
  with assms show ?thesis by (simp add: attemptLaunch_def attemptLaunch_sync_def)
next
  case (Inr s1)
  with assms show ?thesis by (simp add: attemptLaunch_def attemptLaunch_sync_def)
qed

lemma attemptLaunch_sync_idle:
  assumes "\<not> launchAttemptInProgress s"
  shows "attemptLaunch_sync cfg s = ((None, s), Some (checkLaunchConditions_all cfg s))"
  using assms by (simp add: attemptLaunch_sync_def)

lemma launchConditionsExecutor_total:
  assumes "map fst (playersAvailable s) = map fst (app_games_roles cfg)"
  shows "\<exists>tags. launchConditionsExecutor cfg s = Inr tags"
proof -
  let ?final = "lodash_mapValues (playersAvailable s)
      (\<lambda>available. new_Set (lodash_intersection available (readiesReceived s)))"
  have keys': "map fst ?final = map fst (app_games_roles cfg)"
    using assms by (simp add: fst_mapValues)
  note raw = calculateRolesNeeded_closed [OF keys_present [OF assms]]
  note fin = calculateRolesNeeded_closed [OF keys_present [OF keys']]
  show ?thesis
    unfolding launchConditionsExecutor_def Let_def by (simp add: raw fin)
qed

lemma checkLaunchConditions_total:
  assumes "map fst (playersAvailable s) = map fst (app_games_roles cfg)"
  shows "\<exists>m. checkLaunchConditions cfg s = Inr (m, s\<lparr>missingLaunchConditions := Some m\<rparr>)"
proof -
  from launchConditionsExecutor_total [OF assms] obtain tags
    where "launchConditionsExecutor cfg s = Inr tags" by blast
  then have "checkLaunchConditions cfg s
      = Inr (lodash_compact (lodash_flatten [tags]),
             s\<lparr>missingLaunchConditions := Some (lodash_compact (lodash_flatten [tags]))\<rparr>)"
    by (simp add: checkLaunchConditions_def checkLaunchConditions_all_def
        checkLaunchConditions_then_def Let_def)
  then show ?thesis by blast
qed

lemma checkLaunchConditions_Inr:
  assumes "checkLaunchConditions cfg s = Inr (m, s')"
  shows "s' = s\<lparr>missingLaunchConditions := Some m\<rparr>"
  using assms
  by (auto simp: checkLaunchConditions_def checkLaunchConditions_then_def Let_def
      split: sum.splits)

lemma readyPeriodElapsed_cases:
  fixes cfg :: "'v config" and s0 :: "'v state"
  defines "s \<equiv> s0\<lparr>timers := timers s0 - 1\<rparr>"
  defines "pruned \<equiv> \<lambda>m. s\<lparr>missingLaunchConditions := Some m,
        playersAvailable := lodash_mapValues (playersAvailable s0)
          (\<lambda>available. new_Set (lodash_intersection available (readiesReceived s0))),
        captainsAvailable := new_Set (lodash_intersection (captainsAvailable s0) (readiesReceived s0))\<rparr>"
  shows "(\<exists>e. checkLaunchConditions cfg s = Inl e \<and> readyPeriodElapsed cfg s0 = (Some e, s))
    \<or> (\<exists>m e. checkLaunchConditions cfg s = Inr (m, s\<lparr>missingLaunchConditions := Some m\<rparr>)
          \<and> prepareStatusMessage cfg (pruned m) = Inl e
          \<and> readyPeriodElapsed cfg s0 = (Some e, pruned m))
    \<or> (\<exists>m msg. checkLaunchConditions cfg s = Inr (m, s\<lparr>missingLaunchConditions := Some m\<rparr>)
          \<and> m = []
          \<and> readyPeriodElapsed cfg s0
              = (Some TypeError,
                 (pruned m)\<lparr>currentStatusMessage := Some msg,
                             emitted := emitted s0 @ [Io_sockets_emit (LaunchStatusUpdated (Some msg))]\<rparr>))
    \<or> (\<exists>m msg. checkLaunchConditions cfg s = Inr (m, s\<lparr>missingLaunchConditions := Some m\<rparr>)
          \<and> m \<noteq> []
          \<and> readyPeriodElapsed cfg s0
              = (None,
                 (pruned m)\<lparr>currentStatusMessage := Some msg,
                             emitted := emitted s0 @ [Io_sockets_emit (LaunchStatusUpdated (Some msg)),
                                                      Io_sockets_emit LaunchAborted]\<rparr>))"
proof (cases "checkLaunchConditions cfg s")
  case (Inl e)
  then have "readyPeriodElapsed cfg s0 = (Some e, s)"
    by (simp add: readyPeriodElapsed_def s_def Let_def)
  with Inl show ?thesis by blast
next
  case (Inr r)
  obtain m s1 where r: "r = (m, s1)" by (cases r)
  have s1: "s1 = s\<lparr>missingLaunchConditions := Some m\<rparr>"
    using Inr r checkLaunchConditions_Inr by blast
  have chk: "checkLaunchConditions cfg s = Inr (m, s\<lparr>missingLaunchConditions := Some m\<rparr>)"
    using Inr r s1 by simp
  show ?thesis
  proof (cases "prepareStatusMessage cfg (pruned m)")
    case (Inl e)
    have "readyPeriodElapsed cfg s0 = (Some e, pruned m)"
      using chk Inl by (simp add: readyPeriodElapsed_def Let_def pruned_def s_def)
    with chk Inl show ?thesis by blast
  next
    case (Inr s4)
    then obtain msg where s4: "s4 = (pruned m)\<lparr>currentStatusMessage := Some msg\<rparr>"
      using prepareStatusMessage_Inr by blast
    show ?thesis
    proof (cases "m = []")
      case True
      have "readyPeriodElapsed cfg s0
              = (Some TypeError,
                 (pruned m)\<lparr>currentStatusMessage := Some msg,
                             emitted := emitted s0 @ [Io_sockets_emit (LaunchStatusUpdated (Some msg))]\<rparr>)"
        using chk Inr s4 True
        by (simp add: readyPeriodElapsed_def Let_def emit_def lodash_size_def
            array_spread_object_def pruned_def s_def)
      with chk True show ?thesis by blast
    next
      case False
      have "readyPeriodElapsed cfg s0
              = (None,
                 (pruned m)\<lparr>currentStatusMessage := Some msg,
                             emitted := emitted s0 @ [Io_sockets_emit (LaunchStatusUpdated (Some msg)),
                                                      Io_sockets_emit LaunchAborted]\<rparr>)"
        using chk Inr s4 False
        by (simp add: readyPeriodElapsed_def Let_def emit_def lodash_size_def pruned_def s_def)
      with chk False show ?thesis by blast
    qed
  qed
qed

lemma readyPeriodElapsed_window:
  "launchAttemptInProgress (snd (readyPeriodElapsed cfg s0)) = launchAttemptInProgress s0
   \<and> readiesReceived (snd (readyPeriodElapsed cfg s0)) = readiesReceived s0
   \<and> timers (snd (readyPeriodElapsed cfg s0)) = timers s0 - 1"
  using readyPeriodElapsed_cases [of cfg s0] by (elim disjE exE conjE) simp_all

lemma readyPeriodElapsed_inv:
  assumes "window_inv s"
  shows "window_inv (snd (readyPeriodElapsed cfg s))"
  using assms readyPeriodElapsed_window [of cfg s]
  by (auto simp: window_inv_def split: if_splits)

lemma state_ok_shape:
  assumes "state_ok cfg s" "same_registry s s'" "same_window s s' \<or> window_opened s s'"
  shows "state_ok cfg s'"
  using assms by (auto simp: state_ok_def same_registry_def same_window_def window_opened_def)

lemma attemptLaunch_ok:
  assumes "state_ok cfg s"
  shows "state_ok cfg (snd (attemptLaunch cfg s))"
  using attemptLaunch_shape [of s cfg] state_ok_shape [OF assms] by blast

lemma attemptLaunch_then_ok:
  assumes "state_ok cfg s"
  shows "state_ok cfg (snd (attemptLaunch_then cfg settled s))"
  using attemptLaunch_then_shape [of s cfg settled] state_ok_shape [OF assms] by blast

lemma state_ok_emit: "state_ok cfg (emit e s) = state_ok cfg s"
  by (simp add: state_ok_def emit_fields)

lemma updateAvailability_ok:
  assumes "state_ok cfg s" "updateAvailability ur u ds c s = Inr s'"
  shows "state_ok cfg s'"
  using updateAvailability_Inr [OF assms(2)] assms(1) by (auto simp: state_ok_def)

lemma updateUserAvailability_ok:
  assumes "state_ok cfg s"
  shows "state_ok cfg (snd (updateUserAvailability cfg ur u ds c s))"
proof (cases "updateAvailability ur u ds c s")
  case (Inl e)
  with assms show ?thesis by (simp add: updateUserAvailability_eq)
next
  case (Inr s1)
  have "state_ok cfg s1" using assms Inr by (rule updateAvailability_ok)
  then show ?thesis
    using Inr by (simp add: updateUserAvailability_eq attemptLaunch_ok state_ok_emit)
qed

lemma updateUserReadyStatus_ok:
  assumes "state_ok cfg s"
  shows "state_ok cfg (updateUserReadyStatus u ready s)"
  using assms
  by (simp add: updateUserReadyStatus_def state_ok_def emit_fields distinct_Set_add
      distinct_Set_delete)

lemma pruned_pools_distinct:
  "list_all (\<lambda>(role, players). distinct players)
     (lodash_mapValues pa (\<lambda>available. new_Set (lodash_intersection available R)))"
  by (induction pa) (auto simp: lodash_mapValues_def distinct_new_Set)

lemma readyPeriodElapsed_ok:
  assumes "state_ok cfg s"
  shows "state_ok cfg (snd (readyPeriodElapsed cfg s))"
  using readyPeriodElapsed_cases [of cfg s] assms
  by (elim disjE exE conjE)
     (simp_all add: state_ok_def fst_mapValues distinct_new_Set pruned_pools_distinct)

lemma userDisconnected_failed:
  assumes "updateAvailability ur u [] False s = Inl e"
  shows "userDisconnected cfg ur u s = (Some e, s)"
  using assms by (simp add: userDisconnected_def updateUserAvailability_sync_def)

lemma userDisconnected_in_progress:
  assumes "updateAvailability ur u [] False s = Inr s1" "launchAttemptInProgress s"
  shows "userDisconnected cfg ur u s =
     (case attemptLaunch cfg
             (emit (SendMessageToUser u
                      (UserAvailabilityUpdated
                         (lodash_mapValues (playersAvailable s1) (Set_has u))
                         (Set_has u (captainsAvailable s1))))
                s1) of
        (Some e, s3) \<Rightarrow> (Some e, s3)
      | (None, s3) \<Rightarrow> (None, updateUserReadyStatus u False s3))"
proof -
  let ?s2 = "emit (SendMessageToUser u
                      (UserAvailabilityUpdated
                         (lodash_mapValues (playersAvailable s1) (Set_has u))
                         (Set_has u (captainsAvailable s1))))
                s1"
  have "launchAttemptInProgress ?s2"
    using updateAvailability_window [OF assms(1)] assms(2)
    by (simp add: same_window_def emit_fields)
  then have sync: "attemptLaunch_sync cfg ?s2 = (attemptLaunch cfg ?s2, None)"
    by (rule attemptLaunch_sync_in_progress)
  obtain f s3 where r: "attemptLaunch cfg ?s2 = (f, s3)" by (cases "attemptLaunch cfg ?s2")
  show ?thesis
    using assms(1) sync r
    by (cases f) (simp_all add: userDisconnected_def updateUserAvailability_sync_def Let_def)
qed

lemma userDisconnected_idle:
  assumes "updateAvailability ur u [] False s = Inr s1" "\<not> launchAttemptInProgress s"
  shows "userDisconnected cfg ur u s =
     attemptLaunch_then cfg
       (checkLaunchConditions_all cfg
          (emit (SendMessageToUser u
                   (UserAvailabilityUpdated
                      (lodash_mapValues (playersAvailable s1) (Set_has u))
                      (Set_has u (captainsAvailable s1))))
             s1))
       (emit (SendMessageToUser u (UserReadyStatusUpdated False))
          (emit (SendMessageToUser u
                   (UserAvailabilityUpdated
                      (lodash_mapValues (playersAvailable s1) (Set_has u))
                      (Set_has u (captainsAvailable s1))))
             s1))"
proof -
  let ?s2 = "emit (SendMessageToUser u
                      (UserAvailabilityUpdated
                         (lodash_mapValues (playersAvailable s1) (Set_has u))
                         (Set_has u (captainsAvailable s1))))
                s1"
  have idle: "\<not> launchAttemptInProgress ?s2"
    using updateAvailability_window [OF assms(1)] assms(2)
    by (simp add: same_window_def emit_fields)
  then have sync: "attemptLaunch_sync cfg ?s2 = ((None, ?s2), Some (checkLaunchConditions_all cfg ?s2))"
    by (rule attemptLaunch_sync_idle)
  show ?thesis
    using assms(1) sync updateUserReadyStatus_idle [OF idle]
    by (simp add: userDisconnected_def updateUserAvailability_sync_def Let_def)
qed

lemma userDisconnected_inv_ok:
  assumes "window_inv s" "state_ok cfg s"
  shows "window_inv (snd (userDisconnected cfg ur u s)) \<and> state_ok cfg (snd (userDisconnected cfg ur u s))"
proof (cases "updateAvailability ur u [] False s")
  case (Inl e)
  with assms show ?thesis by (simp add: userDisconnected_failed)
next
  case (Inr s1)
  let ?s2 = "emit (SendMessageToUser u
                      (UserAvailabilityUpdated
                         (lodash_mapValues (playersAvailable s1) (Set_has u))
                         (Set_has u (captainsAvailable s1))))
                s1"
  have inv1: "window_inv s1" using assms(1) updateAvailability_window [OF Inr] by (rule window_inv_same)
  have ok1: "state_ok cfg s1" using assms(2) Inr by (rule updateAvailability_ok)
  have inv2: "window_inv ?s2" using inv1 by (simp add: window_inv_emit)
  have ok2: "state_ok cfg ?s2" using ok1 by (simp add: state_ok_emit)
  show ?thesis
  proof (cases "launchAttemptInProgress s")
    case True
    obtain f s3 where r: "attemptLaunch cfg ?s2 = (f, s3)" by (cases "attemptLaunch cfg ?s2")
    have "window_inv s3" "state_ok cfg s3"
      using attemptLaunch_inv [OF inv2, of cfg] attemptLaunch_ok [OF ok2] r by simp_all
    then show ?thesis
      using r by (cases f)
        (simp_all add: userDisconnected_in_progress [OF Inr True] updateUserReadyStatus_inv
          updateUserReadyStatus_ok)
  next
    case False
    let ?s3 = "emit (SendMessageToUser u (UserReadyStatusUpdated False)) ?s2"
    have idle: "\<not> launchAttemptInProgress ?s3"
      using updateAvailability_window [OF Inr] False by (simp add: same_window_def emit_fields)
    have "window_inv ?s3" "state_ok cfg ?s3"
      using inv2 ok2 by (simp_all add: window_inv_emit state_ok_emit)
    then show ?thesis
      using idle
      by (simp add: userDisconnected_idle [OF Inr False] attemptLaunch_then_inv attemptLaunch_then_ok)
  qed
qed

lemma connection_inv_ok:
  assumes "window_inv s" "state_ok cfg s"
  shows "window_inv (connection s) \<and> state_ok cfg (connection s)"
  using assms by (simp add: connection_def window_inv_emit state_ok_emit)

lemma authenticated_inv_ok:
  assumes "window_inv s" "state_ok cfg s"
  shows "window_inv (authenticated t s) \<and> state_ok cfg (authenticated t s)"
  using assms by (simp add: authenticated_def Let_def window_inv_emit state_ok_emit)

lemma handle_inv_ok:
  assumes "window_inv s" "state_ok cfg s"
  shows "window_inv (snd (handle cfg ur e s)) \<and> state_ok cfg (snd (handle cfg ur e s))"
proof (cases e)
  case (UpdateUserAvailability u ds c)
  with assms show ?thesis by (simp add: updateUserAvailability_inv updateUserAvailability_ok)
next
  case (UpdateUserReadyStatus u r)
  with assms show ?thesis by (simp add: updateUserReadyStatus_inv updateUserReadyStatus_ok)
next
  case (UserDisconnected u)
  with assms show ?thesis by (simp add: userDisconnected_inv_ok)
next
  case Connection
  with assms show ?thesis by (simp add: connection_inv_ok)
next
  case (Authenticated t)
  with assms show ?thesis by (simp add: authenticated_inv_ok)
next
  case ReadyPeriodElapsed
  with assms show ?thesis by (simp add: readyPeriodElapsed_inv readyPeriodElapsed_ok)
qed

lemma run_inv_ok:
  assumes "window_inv s" "state_ok cfg s"
  shows "window_inv (run cfg es s) \<and> state_ok cfg (run cfg es s)"
  using assms
proof (induction es arbitrary: s)
  case Nil
  then show ?case by simp
next
  case (Cons a es)
  obtain ur e where a: "a = (ur, e)" by (cases a)
  from handle_inv_ok [OF Cons.prems, of ur e]
  show ?case using Cons.IH a by simp
qed

lemma initial_inv_ok: "window_inv (initial cfg) \<and> state_ok cfg (initial cfg)"
proof -
  have "list_all (\<lambda>(role, players). distinct players)
      (lodash_mapValues rs (\<lambda>_. new_Set []))" for rs :: "(roleName \<times> int) list"
    by (induction rs) (auto simp: lodash_mapValues_def new_Set_def)
  then show ?thesis
    by (simp add: initial_def window_inv_def state_ok_def new_Set_def fst_mapValues)
qed

lemma startup_inv_ok: "window_inv (startup cfg) \<and> state_ok cfg (startup cfg)"
  using initial_inv_ok [of cfg]
  by (simp add: startup_def attemptLaunch_inv attemptLaunch_ok)

lemma reachable_inv_ok:
  "window_inv (run cfg es (startup cfg)) \<and> state_ok cfg (run cfg es (startup cfg))"
  using startup_inv_ok [of cfg] run_inv_ok by blast

subsection \<open>An attempt in progress stays in progress\<close>

lemma attemptLaunch_stays:
  assumes "launchAttemptInProgress s"
  shows "same_window s (snd (attemptLaunch cfg s))"
  using attemptLaunch_shape [of s cfg] assms by blast

lemma updateUserAvailability_stays:
  assumes "launchAttemptInProgress s"
  shows "same_window s (snd (updateUserAvailability cfg ur u ds c s))"
proof (cases "updateAvailability ur u ds c s")
  case (Inl e)
  then show ?thesis by (simp add: updateUserAvailability_eq same_window_def)
next
  case (Inr s1)
  let ?s2 = "emit (SendMessageToUser u
                      (UserAvailabilityUpdated
                         (lodash_mapValues (playersAvailable s1) (Set_has u))
                         (Set_has u (captainsAvailable s1))))
                s1"
  have w: "same_window s ?s2"
    using updateAvailability_window [OF Inr] by (simp add: same_window_def emit_fields)
  then have "launchAttemptInProgress ?s2" using assms by (simp add: same_window_def)
  from attemptLaunch_stays [OF this, of cfg] w
  have "same_window s (snd (attemptLaunch cfg ?s2))" by (simp add: same_window_def)
  then show ?thesis using Inr by (simp add: updateUserAvailability_eq)
qed

lemma updateUserReadyStatus_fields:
  "launchAttemptInProgress (updateUserReadyStatus u ready s) = launchAttemptInProgress s"
  "timers (updateUserReadyStatus u ready s) = timers s"
  "captainsAvailable (updateUserReadyStatus u ready s) = captainsAvailable s"
  "playersAvailable (updateUserReadyStatus u ready s) = playersAvailable s"
  "emitted (updateUserReadyStatus u ready s)
     = emitted s @ [SendMessageToUser u (UserReadyStatusUpdated ready)]"
  by (simp_all add: updateUserReadyStatus_def emit_fields)

lemma userDisconnected_stays:
  assumes "launchAttemptInProgress s"
  shows "launchAttemptInProgress (snd (userDisconnected cfg ur u s))
     \<and> timers (snd (userDisconnected cfg ur u s)) = timers s"
proof (cases "updateAvailability ur u [] False s")
  case (Inl e)
  with assms show ?thesis by (simp add: userDisconnected_failed)
next
  case (Inr s1)
  let ?s2 = "emit (SendMessageToUser u
                      (UserAvailabilityUpdated
                         (lodash_mapValues (playersAvailable s1) (Set_has u))
                         (Set_has u (captainsAvailable s1))))
                s1"
  have w: "same_window s ?s2"
    using updateAvailability_window [OF Inr] by (simp add: same_window_def emit_fields)
  then have "launchAttemptInProgress ?s2" using assms by (simp add: same_window_def)
  from attemptLaunch_stays [OF this, of cfg] w
  have w3: "same_window s (snd (attemptLaunch cfg ?s2))" by (simp add: same_window_def)
  obtain f s3 where r: "attemptLaunch cfg ?s2 = (f, s3)" by (cases "attemptLaunch cfg ?s2")
  with w3 assms have "launchAttemptInProgress s3" "timers s3 = timers s"
    by (simp_all add: same_window_def)
  then show ?thesis
    using r by (cases f)
      (simp_all add: userDisconnected_in_progress [OF Inr assms] updateUserReadyStatus_fields)
qed

lemma handle_stays:
  assumes "launchAttemptInProgress s"
  shows "launchAttemptInProgress (snd (handle cfg ur e s))
     \<and> timers (snd (handle cfg ur e s)) \<le> timers s"
proof (cases e)
  case (UpdateUserAvailability u ds c)
  with updateUserAvailability_stays [OF assms, of cfg ur u ds c] assms
  show ?thesis by (simp add: same_window_def)
next
  case (UpdateUserReadyStatus u r)
  with assms show ?thesis by (simp add: updateUserReadyStatus_fields)
next
  case (UserDisconnected u)
  with userDisconnected_stays [OF assms, of cfg ur u] show ?thesis by simp
next
  case Connection
  with assms show ?thesis by (simp add: connection_def emit_fields)
next
  case (Authenticated t)
  with assms show ?thesis by (simp add: authenticated_def Let_def emit_fields)
next
  case ReadyPeriodElapsed
  with assms readyPeriodElapsed_window [of cfg s] show ?thesis by simp
qed

lemma run_stays:
  assumes "launchAttemptInProgress s"
  shows "launchAttemptInProgress (run cfg es s) \<and> timers (run cfg es s) \<le> timers s"
  using assms
proof (induction es arbitrary: s)
  case Nil
  then show ?case by simp
next
  case (Cons a es)
  obtain ur e where a: "a = (ur, e)" by (cases a)
  from handle_stays [OF Cons.prems, of cfg ur e]
  have h: "launchAttemptInProgress (snd (handle cfg ur e s))"
    "timers (snd (handle cfg ur e s)) \<le> timers s" by simp_all
  from Cons.IH [OF h(1)] h(2) a show ?case by simp
qed

subsection \<open>Broadcasts, idempotence and pruning\<close>

lemma attemptLaunch_rebroadcast:
  assumes "launchAttemptInProgress s"
    and "map fst (playersAvailable s) = map fst (app_games_roles cfg)"
  shows "attemptLaunch cfg s
     = (None, s\<lparr>currentStatusMessage := Some (statusOf cfg s),
                 emitted := emitted s @ [Io_sockets_emit (LaunchStatusUpdated (Some (statusOf cfg s)))]\<rparr>)"
  using assms(1) prepareStatusMessage_ok [OF assms(2)]
  by (simp add: attemptLaunch_def attemptLaunch_sync_def emit_def)

lemma attemptLaunch_then_broadcast:
  assumes "map fst (playersAvailable s) = map fst (app_games_roles cfg)"
  shows "\<exists>msg rest. fst (attemptLaunch_then cfg (Inr lc) s) = None
     \<and> emitted (snd (attemptLaunch_then cfg (Inr lc) s))
         = emitted s @ Io_sockets_emit (LaunchStatusUpdated (Some msg)) # rest
     \<and> currentStatusMessage (snd (attemptLaunch_then cfg (Inr lc) s)) = Some msg
     \<and> (rest = [] \<or> rest = [Io_sockets_emit LaunchInProgress])"
proof -
  let ?s1 = "s\<lparr>missingLaunchConditions := Some (lodash_compact (lodash_flatten lc))\<rparr>"
  have s1: "snd (checkLaunchConditions_then lc s) = ?s1"
    by (simp add: checkLaunchConditions_then_def Let_def)
  have keys1: "map fst (playersAvailable ?s1) = map fst (app_games_roles cfg)"
    using assms by simp
  note prep = prepareStatusMessage_ok [OF keys1]
  let ?msg = "statusOf cfg ?s1"
  show ?thesis
  proof (cases "sizeWithout (Some (lodash_compact (lodash_flatten lc))) ''readyNotChecked'' = 0")
    case True
    have "fst (attemptLaunch_then cfg (Inr lc) s) = None
     \<and> emitted (snd (attemptLaunch_then cfg (Inr lc) s))
         = emitted s @ Io_sockets_emit (LaunchStatusUpdated (Some ?msg)) # [Io_sockets_emit LaunchInProgress]
     \<and> currentStatusMessage (snd (attemptLaunch_then cfg (Inr lc) s)) = Some ?msg"
      using True prep by (simp add: attemptLaunch_then_def s1 Let_def emit_def)
    then show ?thesis by blast
  next
    case False
    have "fst (attemptLaunch_then cfg (Inr lc) s) = None
     \<and> emitted (snd (attemptLaunch_then cfg (Inr lc) s))
         = emitted s @ Io_sockets_emit (LaunchStatusUpdated (Some ?msg)) # []
     \<and> currentStatusMessage (snd (attemptLaunch_then cfg (Inr lc) s)) = Some ?msg"
      using False prep by (simp add: attemptLaunch_then_def s1 Let_def emit_def)
    then show ?thesis by blast
  qed
qed

lemma attemptLaunch_broadcast:
  assumes "map fst (playersAvailable s) = map fst (app_games_roles cfg)"
  shows "\<exists>msg rest. fst (attemptLaunch cfg s) = None
     \<and> emitted (snd (attemptLaunch cfg s))
         = emitted s @ Io_sockets_emit (LaunchStatusUpdated (Some msg)) # rest
     \<and> currentStatusMessage (snd (attemptLaunch cfg s)) = Some msg
     \<and> (rest = [] \<or> rest = [Io_sockets_emit LaunchInProgress])"
proof (cases "launchAttemptInProgress s")
  case True
  have "fst (attemptLaunch cfg s) = None
     \<and> emitted (snd (attemptLaunch cfg s))
         = emitted s @ Io_sockets_emit (LaunchStatusUpdated (Some (statusOf cfg s))) # []
     \<and> currentStatusMessage (snd (attemptLaunch cfg s)) = Some (statusOf cfg s)"
    by (simp add: attemptLaunch_rebroadcast [OF True assms])
  then show ?thesis by blast
next
  case False
  from launchConditionsExecutor_total [OF assms] obtain tags
    where "launchConditionsExecutor cfg s = Inr tags" by blast
  then have "checkLaunchConditions_all cfg s = Inr [tags]"
    by (simp add: checkLaunchConditions_all_def)
  then have "attemptLaunch cfg s = attemptLaunch_then cfg (Inr [tags]) s"
    using False by (simp add: attemptLaunch_idle)
  with attemptLaunch_then_broadcast [OF assms, of "[tags]"] show ?thesis by simp
qed

lemma Set_add_idem: "Set_add u (Set_add u p) = Set_add u p"
  by (simp add: Set_add_def)

lemma Set_delete_idem: "Set_delete u (Set_delete u p) = Set_delete u p"
  by (simp add: Set_delete_def)

lemma toggle_pools_idem:
  "map (\<lambda>(role, players).
          (role, if lodash_includes ds role then Set_add u players else Set_delete u players))
     (map (\<lambda>(role, players).
             (role, if lodash_includes ds role then Set_add u players else Set_delete u players))
        pa)
   = map (\<lambda>(role, players).
            (role, if lodash_includes ds role then Set_add u players else Set_delete u players))
       pa"
  by (induction pa) (auto simp: Set_add_idem Set_delete_idem)

lemma clear_pools_idem:
  "map (\<lambda>(role, players). (role, Set_delete u players))
     (map (\<lambda>(role, players). (role, Set_delete u players)) pa)
   = map (\<lambda>(role, players). (role, Set_delete u players)) pa"
  by (induction pa) (auto simp: Set_delete_idem)

lemma updateAvailability_twice:
  assumes "ur u = Some aspects"
  shows "\<exists>s'. updateAvailability ur u ds c s = Inr s' \<and> updateAvailability ur u ds c s' = Inr s'"
proof (cases "lodash_includes aspects ''start''")
  case True
  let ?s' = "s\<lparr>playersAvailable := map (\<lambda>(role, players). (role, Set_delete u players)) (playersAvailable s),
               captainsAvailable := Set_delete u (captainsAvailable s)\<rparr>"
  have 1: "updateAvailability ur u ds c s = Inr ?s'"
    using assms True by (simp add: updateAvailability_def Let_def)
  have 2: "updateAvailability ur u ds c ?s' = Inr ?s'"
    using assms True
    by (simp add: updateAvailability_def Let_def clear_pools_idem Set_delete_idem del: map_map)
  from 1 2 show ?thesis by blast
next
  case False
  let ?pa = "map (\<lambda>(role, players).
          (role, if lodash_includes ds role then Set_add u players else Set_delete u players))
        (playersAvailable s)"
  show ?thesis
  proof (cases "\<not> lodash_includes aspects ''captain'' \<and> c")
    case True
    let ?s' = "s\<lparr>playersAvailable := ?pa, captainsAvailable := Set_add u (captainsAvailable s)\<rparr>"
    have 1: "updateAvailability ur u ds c s = Inr ?s'"
      using assms False True by (simp add: updateAvailability_def Let_def)
    have 2: "updateAvailability ur u ds c ?s' = Inr ?s'"
      using assms False True
      by (simp add: updateAvailability_def Let_def toggle_pools_idem Set_add_idem del: map_map)
    from 1 2 show ?thesis by blast
  next
    case nc: False
    let ?s' = "s\<lparr>playersAvailable := ?pa, captainsAvailable := Set_delete u (captainsAvailable s)\<rparr>"
    have 1: "updateAvailability ur u ds c s = Inr ?s'"
      using assms False nc by (auto simp: updateAvailability_def Let_def)
    have 2: "updateAvailability ur u ds c ?s' = Inr ?s'"
      using assms False nc
      by (auto simp: updateAvailability_def Let_def toggle_pools_idem Set_delete_idem
          simp del: map_map)
    from 1 2 show ?thesis by blast
  qed
qed

lemma readyPeriodElapsed_prunes:
  assumes "map fst (playersAvailable s) = map fst (app_games_roles cfg)"
  shows "playersAvailable (snd (readyPeriodElapsed cfg s))
           = lodash_mapValues (playersAvailable s)
               (\<lambda>available. new_Set (lodash_intersection available (readiesReceived s)))
     \<and> captainsAvailable (snd (readyPeriodElapsed cfg s))
           = new_Set (lodash_intersection (captainsAvailable s) (readiesReceived s))"
proof -
  have "map fst (playersAvailable (s\<lparr>timers := timers s - 1\<rparr>)) = map fst (app_games_roles cfg)"
    using assms by simp
  from checkLaunchConditions_total [OF this]
  have ok: "\<And>e. checkLaunchConditions cfg (s\<lparr>timers := timers s - 1\<rparr>) \<noteq> Inl e" by auto
  from readyPeriodElapsed_cases [of cfg s] ok show ?thesis
    by (elim disjE exE conjE) simp_all
qed

lemma handle_registry:
  assumes "\<not> changes_registry e"
  shows "same_registry s (snd (handle cfg ur e s))"
  using assms
  by (cases e)
     (simp_all add: same_registry_def updateUserReadyStatus_fields connection_def
       authenticated_def Let_def emit_fields)

lemma launch_branch_raises:
  assumes "checkLaunchConditions cfg (s\<lparr>timers := timers s - 1\<rparr>) = Inr ([], t)"
  shows "fst (readyPeriodElapsed cfg s) \<noteq> None
     \<and> filter isLaunchGameDraft (emitted (snd (readyPeriodElapsed cfg s)))
         = filter isLaunchGameDraft (emitted s)"
  using readyPeriodElapsed_cases [of cfg s] assms
  by (elim disjE exE conjE) simp_all

subsection \<open>Monotonicity in the ready registry\<close>

lemma finite_pool: "finite (pool pa r)"
  by (simp add: pool_def split: option.split)

lemma unionSize_mono:
  assumes "\<And>r. pool pa' r \<subseteq> pool pa r"
  shows "unionSize (pool pa') (set c) \<le> unionSize (pool pa) (set c)"
proof -
  have "finite (\<Union>r\<in>set c. pool pa r)" by (simp add: finite_pool)
  moreover have "(\<Union>r\<in>set c. pool pa' r) \<subseteq> (\<Union>r\<in>set c. pool pa r)"
    using assms by blast
  ultimately show ?thesis unfolding unionSize_def by (rule card_mono)
qed

lemma deficits_empty_iff:
  "deficits rs pa cs = [] \<longleftrightarrow> (\<forall>c\<in>set cs. \<not> js_greater (missingFor rs pa c) (Finite 0))"
  by (induction cs) (auto simp: deficits_def)

lemma deficits_mono:
  assumes "\<And>r. pool pa' r \<subseteq> pool pa r" and "deficits rs pa' cs = []"
  shows "deficits rs pa cs = []"
proof -
  have "js_greater (missingFor rs pa c) (Finite 0)
      \<Longrightarrow> js_greater (missingFor rs pa' c) (Finite 0)" for c
    unfolding missingFor_def
    by (rule js_greater_subtract_antimono [of "int (unionSize (pool pa') (set c))"])
       (use unionSize_mono [of pa' pa c] assms(1) in simp_all)
  with assms(2) show ?thesis
    unfolding deficits_empty_iff by blast
qed

lemma launchConditionsExecutor_closed:
  assumes "map fst (playersAvailable s) = map fst (app_games_roles cfg)"
  shows "launchConditionsExecutor cfg s =
     (if length (captainsAvailable s) < 2 then Inr [''notAvailable'']
      else if deficits (app_games_roles cfg) (playersAvailable s)
                (allCombinations (map fst (app_games_roles cfg))) \<noteq> []
           then Inr [''notAvailable'']
      else if \<not> launchAttemptInProgress s then Inr [''readyNotChecked'']
      else if card (set (captainsAvailable s) \<inter> set (readiesReceived s)) < 2
           then Inr [''notReady'']
      else if deficits (app_games_roles cfg)
                (lodash_mapValues (playersAvailable s)
                   (\<lambda>available. new_Set (lodash_intersection available (readiesReceived s))))
                (allCombinations (map fst (app_games_roles cfg))) \<noteq> []
           then Inr [''notReady'']
      else Inr [])"
proof -
  let ?final = "lodash_mapValues (playersAvailable s)
      (\<lambda>available. new_Set (lodash_intersection available (readiesReceived s)))"
  have keys': "map fst ?final = map fst (app_games_roles cfg)"
    using assms by (simp add: fst_mapValues)
  note raw = calculateRolesNeeded_closed [OF keys_present [OF assms]]
  note fin = calculateRolesNeeded_closed [OF keys_present [OF keys']]
  show ?thesis
    unfolding launchConditionsExecutor_def Let_def
    by (simp add: raw fin size_intersected)
qed

lemma checkLaunchConditions_of_executor:
  assumes "launchConditionsExecutor cfg s = Inr tags" "\<forall>t\<in>set tags. t \<noteq> []"
  shows "checkLaunchConditions cfg s = Inr (tags, s\<lparr>missingLaunchConditions := Some tags\<rparr>)"
proof -
  have "lodash_compact (lodash_flatten [tags]) = tags"
    using assms(2) by (simp add: lodash_compact_def lodash_flatten_def filter_id_conv)
  then show ?thesis
    using assms(1)
    by (simp add: checkLaunchConditions_def checkLaunchConditions_all_def
        checkLaunchConditions_then_def Let_def)
qed

lemma pruned_pool_mono:
  assumes "set R' \<subseteq> set R"
  shows "pool (lodash_mapValues pa (\<lambda>available. new_Set (lodash_intersection available R'))) r
       \<subseteq> pool (lodash_mapValues pa (\<lambda>available. new_Set (lodash_intersection available R))) r"
  using assms by (auto simp: pool_intersected)

subsection \<open>Resolution of a window\<close>

lemma readyPeriodElapsed_flag_kept:
  "launchAttemptInProgress (snd (readyPeriodElapsed cfg s)) = launchAttemptInProgress s"
  using readyPeriodElapsed_window [of cfg s] by simp

lemma readyPeriodElapsed_never_reopens:
  assumes "launchAttemptInProgress s"
  shows "launchAttemptInProgress (run cfg es (snd (readyPeriodElapsed cfg s)))"
    and "timers (run cfg es (snd (readyPeriodElapsed cfg s))) \<le> timers s - 1"
proof -
  from assms have after: "launchAttemptInProgress (snd (readyPeriodElapsed cfg s))"
    by (simp add: readyPeriodElapsed_flag_kept)
  from run_stays [OF after, of cfg es]
  show "launchAttemptInProgress (run cfg es (snd (readyPeriodElapsed cfg s)))" by simp
  from run_stays [OF after, of cfg es] readyPeriodElapsed_window [of cfg s]
  show "timers (run cfg es (snd (readyPeriodElapsed cfg s))) \<le> timers s - 1" by simp
qed

text \<open>
  Claim C3 against the code. The window in which only one of the two available captains
  has confirmed resolves without an exception: the callback broadcasts the abort signal
  and returns with \<open>launchAttemptInProgress\<close> still true, since neither branch of it
  assigns the variable. The window in which everybody has confirmed leaves it true as
  well. After the abort the lobby still treats the window as open: when the four users
  declare their availability again, \<open>attemptLaunch\<close> only rebroadcasts the status and
  no ready period is scheduled.
\<close>

theorem readyPeriodElapsed_no_reset:
  "launchAttemptInProgress one_captain_ready
   \<and> timers one_captain_ready = 1
   \<and> fst (handle scenario_config everyone ReadyPeriodElapsed one_captain_ready) = None
   \<and> last (emitted (snd (handle scenario_config everyone ReadyPeriodElapsed one_captain_ready)))
       = Io_sockets_emit LaunchAborted
   \<and> launchAttemptInProgress
         (snd (handle scenario_config everyone ReadyPeriodElapsed one_captain_ready))
   \<and> launchAttemptInProgress (snd (handle scenario_config everyone ReadyPeriodElapsed all_ready))
   \<and> timers (run scenario_config gathering
                (snd (handle scenario_config everyone ReadyPeriodElapsed one_captain_ready))) = 0"
proof (intro conjI)
  show "launchAttemptInProgress one_captain_ready" by code_simp
  show "timers one_captain_ready = 1" by code_simp
  show "fst (handle scenario_config everyone ReadyPeriodElapsed one_captain_ready) = None"
    by code_simp
  show "last (emitted (snd (handle scenario_config everyone ReadyPeriodElapsed one_captain_ready)))
       = Io_sockets_emit LaunchAborted"
    by code_simp
  show "launchAttemptInProgress
         (snd (handle scenario_config everyone ReadyPeriodElapsed one_captain_ready))"
    by code_simp
  show "launchAttemptInProgress (snd (handle scenario_config everyone ReadyPeriodElapsed all_ready))"
    by code_simp
  show "timers (run scenario_config gathering
                (snd (handle scenario_config everyone ReadyPeriodElapsed one_captain_ready))) = 0"
    by code_simp
qed

text \<open>
  Claim C4 against the code. With everybody confirmed, the window resolves with no unmet
  condition; the callback broadcasts the status and then builds the roster with
  \<open>[...playersAvailable]\<close>, the spread of a plain object, which raises
  \<open>TypeError\<close> before \<open>launchGameDraft\<close> is emitted: the handler ends with the
  exception and no roster event is among the emissions.
\<close>

theorem launchGameDraft_not_emitted:
  "timers all_ready = 1
   \<and> missingLaunchConditions (snd (handle scenario_config everyone ReadyPeriodElapsed all_ready))
       = Some []
   \<and> fst (handle scenario_config everyone ReadyPeriodElapsed all_ready) = Some TypeError
   \<and> filter isLaunchGameDraft
         (emitted (snd (handle scenario_config everyone ReadyPeriodElapsed all_ready))) = []"
proof (intro conjI)
  show "timers all_ready = 1" by code_simp
  show "missingLaunchConditions (snd (handle scenario_config everyone ReadyPeriodElapsed all_ready))
       = Some []"
    by code_simp
  show "fst (handle scenario_config everyone ReadyPeriodElapsed all_ready) = Some TypeError"
    by code_simp
  show "filter isLaunchGameDraft
         (emitted (snd (handle scenario_config everyone ReadyPeriodElapsed all_ready))) = []"
    by code_simp
qed

subsection \<open>Re-entrant launch attempts\<close>

text \<open>
  Claim C5. In every state with \<open>launchAttemptInProgress\<close> true, \<open>attemptLaunch\<close>
  leaves the ready registry, the pending timeouts, the flag, the registry and the stored
  conditions as they are; when the registry has a pool for every role it ends without
  exception, having stored the rebuilt status message and broadcast it, and changed
  nothing else. In every state of every run at most one ready-period timeout is pending.
\<close>

theorem attemptLaunch_reentrant:
  assumes "launchAttemptInProgress s"
  shows "readiesReceived (snd (attemptLaunch cfg s)) = readiesReceived s
     \<and> timers (snd (attemptLaunch cfg s)) = timers s
     \<and> launchAttemptInProgress (snd (attemptLaunch cfg s))
     \<and> captainsAvailable (snd (attemptLaunch cfg s)) = captainsAvailable s
     \<and> playersAvailable (snd (attemptLaunch cfg s)) = playersAvailable s
     \<and> missingLaunchConditions (snd (attemptLaunch cfg s)) = missingLaunchConditions s
     \<and> (map fst (playersAvailable s) = map fst (app_games_roles cfg) \<longrightarrow>
           attemptLaunch cfg s
             = (None, s\<lparr>currentStatusMessage := Some (statusOf cfg s),
                         emitted := emitted s
                           @ [Io_sockets_emit (LaunchStatusUpdated (Some (statusOf cfg s)))]\<rparr>))
     \<and> timers (run cfg es (startup cfg)) \<le> 1"
proof -
  have frame: "readiesReceived (snd (attemptLaunch cfg s)) = readiesReceived s
     \<and> timers (snd (attemptLaunch cfg s)) = timers s
     \<and> launchAttemptInProgress (snd (attemptLaunch cfg s))
     \<and> captainsAvailable (snd (attemptLaunch cfg s)) = captainsAvailable s
     \<and> playersAvailable (snd (attemptLaunch cfg s)) = playersAvailable s
     \<and> missingLaunchConditions (snd (attemptLaunch cfg s)) = missingLaunchConditions s"
    using attemptLaunch_in_progress [OF assms, of cfg] assms
    by (elim disjE exE) simp_all
  have rebroadcast: "map fst (playersAvailable s) = map fst (app_games_roles cfg) \<longrightarrow>
           attemptLaunch cfg s
             = (None, s\<lparr>currentStatusMessage := Some (statusOf cfg s),
                         emitted := emitted s
                           @ [Io_sockets_emit (LaunchStatusUpdated (Some (statusOf cfg s)))]\<rparr>)"
    using attemptLaunch_rebroadcast [OF assms] by (intro impI)
  have one: "timers (run cfg es (startup cfg)) \<le> 1"
    using reachable_inv_ok [of cfg es] by (auto simp: window_inv_def split: if_splits)
  from frame rebroadcast one show ?thesis by (intro conjI) simp_all
qed

theorem attemptLaunch_reentrant_witness:
  "launchAttemptInProgress one_captain_ready
   \<and> readiesReceived (snd (attemptLaunch scenario_config one_captain_ready)) = [''A'', ''C'', ''D'']
   \<and> timers (snd (attemptLaunch scenario_config one_captain_ready)) = 1
   \<and> emitted (snd (attemptLaunch scenario_config one_captain_ready))
       = emitted one_captain_ready
           @ [Io_sockets_emit (LaunchStatusUpdated (Some (statusOf scenario_config one_captain_ready)))]"
proof -
  have h: "launchAttemptInProgress one_captain_ready" by code_simp
  have k: "map fst (playersAvailable one_captain_ready) = map fst (app_games_roles scenario_config)"
    by code_simp
  have r: "readiesReceived one_captain_ready = [''A'', ''C'', ''D'']" by code_simp
  have t: "timers one_captain_ready = 1" by code_simp
  note inst = attemptLaunch_reentrant [OF h, of scenario_config "[]"]
  from inst r have 1: "readiesReceived (snd (attemptLaunch scenario_config one_captain_ready))
      = [''A'', ''C'', ''D'']" by simp
  from inst t have 2: "timers (snd (attemptLaunch scenario_config one_captain_ready)) = 1" by simp
  from inst k have "attemptLaunch scenario_config one_captain_ready
      = (None, one_captain_ready\<lparr>currentStatusMessage := Some (statusOf scenario_config one_captain_ready),
                 emitted := emitted one_captain_ready
                   @ [Io_sockets_emit (LaunchStatusUpdated (Some (statusOf scenario_config one_captain_ready)))]\<rparr>)"
    by blast
  then have 3: "emitted (snd (attemptLaunch scenario_config one_captain_ready))
       = emitted one_captain_ready
           @ [Io_sockets_emit (LaunchStatusUpdated (Some (statusOf scenario_config one_captain_ready)))]"
    by simp
  from h 1 2 3 show ?thesis by (intro conjI)
qed

subsection \<open>Status broadcasts\<close>

text \<open>
  Claim C6, as stated, fails for readiness events: during the open window the readiness
  event of user A changes the ready registry, and the handler emits the acknowledgment
  to A and nothing else; no status broadcast follows.
\<close>

theorem readiness_without_broadcast_counterexample:
  "readiesReceived window_open = []
   \<and> readiesReceived (snd (handle scenario_config everyone (UpdateUserReadyStatus ''A'' True)
                               window_open)) = [''A'']
   \<and> drop (length (emitted window_open))
         (emitted (snd (handle scenario_config everyone (UpdateUserReadyStatus ''A'' True)
                          window_open)))
       = [SendMessageToUser ''A'' (UserReadyStatusUpdated True)]
   \<and> filter isStatusBroadcast
         (drop (length (emitted window_open))
            (emitted (snd (handle scenario_config everyone (UpdateUserReadyStatus ''A'' True)
                             window_open)))) = []"
proof (intro conjI)
  show "readiesReceived window_open = []" by code_simp
  show "readiesReceived (snd (handle scenario_config everyone (UpdateUserReadyStatus ''A'' True)
                               window_open)) = [''A'']"
    by code_simp
  show "drop (length (emitted window_open))
         (emitted (snd (handle scenario_config everyone (UpdateUserReadyStatus ''A'' True)
                          window_open)))
       = [SendMessageToUser ''A'' (UserReadyStatusUpdated True)]"
    by code_simp
  show "filter isStatusBroadcast
         (drop (length (emitted window_open))
            (emitted (snd (handle scenario_config everyone (UpdateUserReadyStatus ''A'' True)
                             window_open)))) = []"
    by code_simp
qed

text \<open>
  Claim C6, amended. The handler of an availability-change event for a user with an
  entry in the restriction map, on a registry with a pool for every role, calls
  \<open>attemptLaunch\<close>: it ends without exception and emits, in this order, the
  acknowledgment to the user, the broadcast of the status message it has just stored,
  and at most the window-opened signal. The handler of a readiness-change event does not
  call \<open>attemptLaunch\<close>: it emits the acknowledgment to the user and nothing else.
\<close>

theorem broadcast_follows_availability:
  "(ur u = Some aspects \<and> map fst (playersAvailable s) = map fst (app_games_roles cfg) \<longrightarrow>
      (\<exists>flags captain msg rest.
         fst (updateUserAvailability cfg ur u ds c s) = None
         \<and> emitted (snd (updateUserAvailability cfg ur u ds c s))
             = emitted s
                 @ SendMessageToUser u (UserAvailabilityUpdated flags captain)
                 # Io_sockets_emit (LaunchStatusUpdated (Some msg)) # rest
         \<and> currentStatusMessage (snd (updateUserAvailability cfg ur u ds c s)) = Some msg
         \<and> (rest = [] \<or> rest = [Io_sockets_emit LaunchInProgress])))
   \<and> emitted (updateUserReadyStatus u ready s)
       = emitted s @ [SendMessageToUser u (UserReadyStatusUpdated ready)]"
proof (intro conjI impI)
  show "emitted (updateUserReadyStatus u ready s)
       = emitted s @ [SendMessageToUser u (UserReadyStatusUpdated ready)]"
    by (simp add: updateUserReadyStatus_fields)
next
  assume a: "ur u = Some aspects \<and> map fst (playersAvailable s) = map fst (app_games_roles cfg)"
  from a updateAvailability_twice [of ur u aspects ds c s]
  obtain s1 where s1: "updateAvailability ur u ds c s = Inr s1" by blast
  let ?flags = "lodash_mapValues (playersAvailable s1) (Set_has u)"
  let ?captain = "Set_has u (captainsAvailable s1)"
  let ?s2 = "emit (SendMessageToUser u (UserAvailabilityUpdated ?flags ?captain)) s1"
  from updateAvailability_Inr [OF s1] a
  have keys: "map fst (playersAvailable ?s2) = map fst (app_games_roles cfg)"
    and em: "emitted ?s2 = emitted s @ [SendMessageToUser u (UserAvailabilityUpdated ?flags ?captain)]"
    by (auto simp: emit_fields)
  have eq: "updateUserAvailability cfg ur u ds c s = attemptLaunch cfg ?s2"
    using s1 by (simp add: updateUserAvailability_eq)
  from attemptLaunch_broadcast [OF keys] obtain msg rest where
    b: "fst (attemptLaunch cfg ?s2) = None"
      "emitted (snd (attemptLaunch cfg ?s2))
         = emitted ?s2 @ Io_sockets_emit (LaunchStatusUpdated (Some msg)) # rest"
      "currentStatusMessage (snd (attemptLaunch cfg ?s2)) = Some msg"
      "rest = [] \<or> rest = [Io_sockets_emit LaunchInProgress]"
    by blast
  have "fst (updateUserAvailability cfg ur u ds c s) = None
         \<and> emitted (snd (updateUserAvailability cfg ur u ds c s))
             = emitted s
                 @ SendMessageToUser u (UserAvailabilityUpdated ?flags ?captain)
                 # Io_sockets_emit (LaunchStatusUpdated (Some msg)) # rest
         \<and> currentStatusMessage (snd (updateUserAvailability cfg ur u ds c s)) = Some msg
         \<and> (rest = [] \<or> rest = [Io_sockets_emit LaunchInProgress])"
    using b em by (simp add: eq)
  then show "\<exists>flags captain msg rest.
         fst (updateUserAvailability cfg ur u ds c s) = None
         \<and> emitted (snd (updateUserAvailability cfg ur u ds c s))
             = emitted s
                 @ SendMessageToUser u (UserAvailabilityUpdated flags captain)
                 # Io_sockets_emit (LaunchStatusUpdated (Some msg)) # rest
         \<and> currentStatusMessage (snd (updateUserAvailability cfg ur u ds c s)) = Some msg
         \<and> (rest = [] \<or> rest = [Io_sockets_emit LaunchInProgress])"
    by blast
qed

theorem broadcast_follows_availability_witness:
  "everyone ''B'' = Some []
   \<and> map fst (playersAvailable window_open) = map fst (app_games_roles scenario_config)
   \<and> (\<exists>flags captain msg rest.
         emitted (snd (updateUserAvailability scenario_config everyone ''B'' [] False window_open))
           = emitted window_open
               @ SendMessageToUser ''B'' (UserAvailabilityUpdated flags captain)
               # Io_sockets_emit (LaunchStatusUpdated (Some msg)) # rest)"
proof -
  have h1: "everyone ''B'' = Some []" by (simp add: everyone_def)
  have h2: "map fst (playersAvailable window_open) = map fst (app_games_roles scenario_config)"
    by code_simp
  from broadcast_follows_availability
         [of everyone "''B''" "[]" window_open scenario_config "[]" False] h1 h2
  have "\<exists>flags captain msg rest.
         emitted (snd (updateUserAvailability scenario_config everyone ''B'' [] False window_open))
           = emitted window_open
               @ SendMessageToUser ''B'' (UserAvailabilityUpdated flags captain)
               # Io_sockets_emit (LaunchStatusUpdated (Some msg)) # rest"
    by blast
  with h1 h2 show ?thesis by (intro conjI)
qed

subsection \<open>Availability updates\<close>

text \<open>
  Claim C7, as stated, fails for a user absent from the restriction map: reading
  \<open>aspects\<close> of the missing entry raises \<open>TypeError\<close>, and the update does not
  complete.
\<close>

theorem updateAvailability_absent_user_counterexample:
  "nobody ''A'' = None
   \<and> updateAvailability nobody ''A'' [''tank''] True (startup scenario_config) = Inl TypeError"
proof (intro conjI)
  show "nobody ''A'' = None" by (simp add: nobody_def)
  show "updateAvailability nobody ''A'' [''tank''] True (startup scenario_config) = Inl TypeError"
    by code_simp
qed

text \<open>
  Claim C7, amended. For every user identifier that has an entry in the restriction map,
  every desired-role list and every captain flag, the availability update completes
  without error from every state, and applying the same update to the resulting state
  gives that state again.
\<close>

theorem updateAvailability_total_idempotent:
  assumes "userRestrictions userID = Some aspects"
  shows "\<exists>s'. updateAvailability userRestrictions userID desiredRoles wantsCaptain s = Inr s'
            \<and> updateAvailability userRestrictions userID desiredRoles wantsCaptain s' = Inr s'"
  using assms by (rule updateAvailability_twice)

theorem updateAvailability_total_idempotent_witness:
  "everyone ''A'' = Some []
   \<and> (\<exists>s'. updateAvailability everyone ''A'' [''tank''] True (startup scenario_config) = Inr s'
            \<and> updateAvailability everyone ''A'' [''tank''] True s' = Inr s')"
proof -
  have h: "everyone ''A'' = Some []" by (simp add: everyone_def)
  from updateAvailability_total_idempotent
         [of everyone "''A''" "[]" "[''tank'']" True "startup scenario_config"] h
  have "\<exists>s'. updateAvailability everyone ''A'' [''tank''] True (startup scenario_config) = Inr s'
            \<and> updateAvailability everyone ''A'' [''tank''] True s' = Inr s'"
    by (rule meta_mp)
  with h show ?thesis by (intro conjI)
qed

subsection \<open>Writers of the registry\<close>

text \<open>
  Claim C8, as stated, fails: resolving the window in which user B has not confirmed
  removes B from the tank pool and from the captain set, in the abort branch.
\<close>

theorem resolution_prunes_registry_counterexample:
  "playersAvailable one_captain_ready = disjoint_pools
   \<and> disjoint_pools = [(''tank'', [''A'', ''B'']), (''healer'', [''C'', ''D''])]
   \<and> captainsAvailable one_captain_ready = [''A'', ''B'']
   \<and> last (emitted (snd (handle scenario_config everyone ReadyPeriodElapsed one_captain_ready)))
       = Io_sockets_emit LaunchAborted
   \<and> playersAvailable (snd (handle scenario_config everyone ReadyPeriodElapsed one_captain_ready))
       = [(''tank'', [''A'']), (''healer'', [''C'', ''D''])]
   \<and> captainsAvailable (snd (handle scenario_config everyone ReadyPeriodElapsed one_captain_ready))
       = [''A'']"
proof (intro conjI)
  show "playersAvailable one_captain_ready = disjoint_pools" by code_simp
  show "disjoint_pools = [(''tank'', [''A'', ''B'']), (''healer'', [''C'', ''D''])]"
    by (simp add: disjoint_pools_def)
  show "captainsAvailable one_captain_ready = [''A'', ''B'']" by code_simp
  show "last (emitted (snd (handle scenario_config everyone ReadyPeriodElapsed one_captain_ready)))
       = Io_sockets_emit LaunchAborted"
    by code_simp
  show "playersAvailable (snd (handle scenario_config everyone ReadyPeriodElapsed one_captain_ready))
       = [(''tank'', [''A'']), (''healer'', [''C'', ''D''])]"
    by code_simp
  show "captainsAvailable (snd (handle scenario_config everyone ReadyPeriodElapsed one_captain_ready))
       = [''A'']"
    by code_simp
qed

text \<open>
  Claim C8, amended. The pools and the captain set are written only by the handlers of
  availability updates and disconnects and by the resolution of a ready-check window:
  every other event leaves them as they are, and so does \<open>attemptLaunch\<close>, whether
  or not it opens a window. The resolution, on a registry with a pool for every role,
  replaces every pool and the captain set by its members that are in the ready
  registry, in the launch branch and in the abort branch alike.
\<close>

theorem registry_written_by:
  "(\<not> changes_registry e \<longrightarrow>
      captainsAvailable (snd (handle cfg ur e s)) = captainsAvailable s
      \<and> playersAvailable (snd (handle cfg ur e s)) = playersAvailable s)
   \<and> captainsAvailable (snd (attemptLaunch cfg s)) = captainsAvailable s
   \<and> playersAvailable (snd (attemptLaunch cfg s)) = playersAvailable s
   \<and> (map fst (playersAvailable s) = map fst (app_games_roles cfg) \<longrightarrow>
         playersAvailable (snd (readyPeriodElapsed cfg s))
           = lodash_mapValues (playersAvailable s)
               (\<lambda>available. new_Set (lodash_intersection available (readiesReceived s)))
         \<and> captainsAvailable (snd (readyPeriodElapsed cfg s))
           = new_Set (lodash_intersection (captainsAvailable s) (readiesReceived s)))"
proof (intro conjI impI)
  assume "\<not> changes_registry e"
  from handle_registry [OF this, of s cfg ur]
  show "captainsAvailable (snd (handle cfg ur e s)) = captainsAvailable s"
    and "playersAvailable (snd (handle cfg ur e s)) = playersAvailable s"
    by (simp_all add: same_registry_def)
next
  from attemptLaunch_shape [of s cfg]
  show "captainsAvailable (snd (attemptLaunch cfg s)) = captainsAvailable s"
    and "playersAvailable (snd (attemptLaunch cfg s)) = playersAvailable s"
    by (simp_all add: same_registry_def)
next
  assume keys: "map fst (playersAvailable s) = map fst (app_games_roles cfg)"
  from readyPeriodElapsed_prunes [OF keys]
  show "playersAvailable (snd (readyPeriodElapsed cfg s))
           = lodash_mapValues (playersAvailable s)
               (\<lambda>available. new_Set (lodash_intersection available (readiesReceived s)))"
    and "captainsAvailable (snd (readyPeriodElapsed cfg s))
           = new_Set (lodash_intersection (captainsAvailable s) (readiesReceived s))"
    by simp_all
qed

theorem registry_written_by_witness:
  "\<not> changes_registry (UpdateUserReadyStatus ''A'' True)
   \<and> map fst (playersAvailable one_captain_ready) = map fst (app_games_roles scenario_config)
   \<and> playersAvailable
         (snd (handle scenario_config everyone (UpdateUserReadyStatus ''A'' True) window_open))
       = playersAvailable window_open
   \<and> captainsAvailable (snd (readyPeriodElapsed scenario_config one_captain_ready))
       = new_Set (lodash_intersection (captainsAvailable one_captain_ready)
                    (readiesReceived one_captain_ready))"
proof -
  have h1: "\<not> changes_registry (UpdateUserReadyStatus ''A'' True)" by simp
  have h2: "map fst (playersAvailable one_captain_ready) = map fst (app_games_roles scenario_config)"
    by code_simp
  from registry_written_by
         [of "UpdateUserReadyStatus ''A'' True" scenario_config everyone window_open] h1
  have 1: "playersAvailable
         (snd (handle scenario_config everyone (UpdateUserReadyStatus ''A'' True) window_open))
       = playersAvailable window_open"
    by (elim conjE) simp
  from registry_written_by
         [of "UpdateUserReadyStatus ''A'' True" scenario_config everyone one_captain_ready] h2
  have 2: "captainsAvailable (snd (readyPeriodElapsed scenario_config one_captain_ready))
       = new_Set (lodash_intersection (captainsAvailable one_captain_ready)
                    (readiesReceived one_captain_ready))"
    by (elim conjE) simp
  from h1 h2 1 2 show ?thesis by (intro conjI)
qed

subsection \<open>Removing a ready user\<close>

text \<open>
  Claim C9. For every state whose registry has a pool for every role, every ready set
  (the ready registry of the state) and every user \<open>u\<close>: both with the ready set and
  with \<open>u\<close> deleted from it \<open>checkLaunchConditions\<close> resolves, and the list of
  unmet conditions with \<open>u\<close> in the ready set is no longer than without; in
  particular, when the check without \<open>u\<close> finds no unmet condition (the window would
  resolve with a launch), so does the check with \<open>u\<close>.
\<close>

theorem readiness_removal_monotone:
  assumes "map fst (playersAvailable s) = map fst (app_games_roles cfg)"
  shows "\<exists>m m' t t'.
           checkLaunchConditions cfg s = Inr (m, t)
           \<and> checkLaunchConditions cfg (s\<lparr>readiesReceived := Set_delete u (readiesReceived s)\<rparr>)
               = Inr (m', t')
           \<and> (m' = [] \<longrightarrow> m = [])
           \<and> length m \<le> length m'"
proof -
  let ?R = "readiesReceived s"
  let ?R' = "Set_delete u ?R"
  let ?s' = "s\<lparr>readiesReceived := ?R'\<rparr>"
  let ?rs = "app_games_roles cfg"
  let ?all = "allCombinations (map fst ?rs)"
  let ?final = "\<lambda>R. lodash_mapValues (playersAvailable s)
                  (\<lambda>available. new_Set (lodash_intersection available R))"
  have keys': "map fst (playersAvailable ?s') = map fst ?rs" using assms by simp
  have sub: "set ?R' \<subseteq> set ?R" by (auto simp: Set_delete_def)
  have cap: "card (set (captainsAvailable s) \<inter> set ?R')
      \<le> card (set (captainsAvailable s) \<inter> set ?R)"
    using sub by (intro card_mono) auto
  have pools: "deficits ?rs (?final ?R') ?all = [] \<Longrightarrow> deficits ?rs (?final ?R) ?all = []"
    using pruned_pool_mono [OF sub] by (rule deficits_mono)
  note e = launchConditionsExecutor_closed [OF assms]
  note e' = launchConditionsExecutor_closed [OF keys']
  have "\<exists>tags tags'. launchConditionsExecutor cfg s = Inr tags
      \<and> launchConditionsExecutor cfg ?s' = Inr tags'
      \<and> (\<forall>t\<in>set tags. t \<noteq> []) \<and> (\<forall>t\<in>set tags'. t \<noteq> [])
      \<and> (tags' = [] \<longrightarrow> tags = []) \<and> length tags \<le> length tags'"
  proof (cases "length (captainsAvailable s) < 2
      \<or> deficits ?rs (playersAvailable s) ?all \<noteq> [] \<or> \<not> launchAttemptInProgress s")
    case True
    then have "launchConditionsExecutor cfg ?s' = launchConditionsExecutor cfg s"
      unfolding e e' by auto
    moreover from True have "launchConditionsExecutor cfg s = Inr [''notAvailable'']
        \<or> launchConditionsExecutor cfg s = Inr [''readyNotChecked'']"
      unfolding e by auto
    ultimately show ?thesis by auto
  next
    case False
    show ?thesis
    proof (cases "card (set (captainsAvailable s) \<inter> set ?R') < 2
        \<or> deficits ?rs (?final ?R') ?all \<noteq> []")
      case True
      with False have 1: "launchConditionsExecutor cfg ?s' = Inr [''notReady'']"
        unfolding e' by auto
      from False have 2: "launchConditionsExecutor cfg s = Inr [''notReady'']
          \<or> launchConditionsExecutor cfg s = Inr []"
        unfolding e by auto
      from 1 2 show ?thesis by auto
    next
      case ready: False
      with False have 1: "launchConditionsExecutor cfg ?s' = Inr []"
        unfolding e' by auto
      from ready cap pools have "\<not> card (set (captainsAvailable s) \<inter> set ?R) < 2"
        "deficits ?rs (?final ?R) ?all = []"
        by auto
      with False have 2: "launchConditionsExecutor cfg s = Inr []"
        unfolding e by auto
      from 1 2 show ?thesis by auto
    qed
  qed
  then obtain tags tags' where x: "launchConditionsExecutor cfg s = Inr tags"
      "launchConditionsExecutor cfg ?s' = Inr tags'"
      "\<forall>t\<in>set tags. t \<noteq> []" "\<forall>t\<in>set tags'. t \<noteq> []"
      "tags' = [] \<longrightarrow> tags = []" "length tags \<le> length tags'"
    by blast
  from checkLaunchConditions_of_executor [OF x(1) x(3)]
    checkLaunchConditions_of_executor [OF x(2) x(4)] x(5) x(6)
  show ?thesis by blast
qed

theorem readiness_removal_monotone_witness:
  "map fst (playersAvailable all_ready) = map fst (app_games_roles scenario_config)
   \<and> (\<exists>m m' t t'.
         checkLaunchConditions scenario_config all_ready = Inr (m, t)
         \<and> checkLaunchConditions scenario_config
               (all_ready\<lparr>readiesReceived := Set_delete ''B'' (readiesReceived all_ready)\<rparr>)
             = Inr (m', t')
         \<and> (m' = [] \<longrightarrow> m = [])
         \<and> length m \<le> length m')"
proof -
  have h: "map fst (playersAvailable all_ready) = map fst (app_games_roles scenario_config)"
    by code_simp
  from readiness_removal_monotone [OF h, of "''B''"] h show ?thesis by (intro conjI)
qed

subsection \<open>The ready registry outside a window\<close>

text \<open>
  Claim C10. In every state of every run in which \<open>launchAttemptInProgress\<close> is false,
  the ready registry is empty. With the flag false, the handler of a readiness event
  only emits the acknowledgment to the user and changes nothing else; and whenever
  \<open>attemptLaunch\<close> turns the flag from false to true, it leaves the ready registry
  empty.
\<close>

theorem ready_registry_empty_while_idle:
  "(\<not> launchAttemptInProgress (run cfg es (startup cfg)) \<longrightarrow>
      readiesReceived (run cfg es (startup cfg)) = [])
   \<and> (\<not> launchAttemptInProgress s \<longrightarrow>
        updateUserReadyStatus userID ready s
          = s\<lparr>emitted := emitted s @ [SendMessageToUser userID (UserReadyStatusUpdated ready)]\<rparr>)
   \<and> (\<not> launchAttemptInProgress s \<and> launchAttemptInProgress (snd (attemptLaunch cfg s)) \<longrightarrow>
        readiesReceived (snd (attemptLaunch cfg s)) = [])"
proof (intro conjI impI)
  assume "\<not> launchAttemptInProgress (run cfg es (startup cfg))"
  with reachable_inv_ok [of cfg es]
  show "readiesReceived (run cfg es (startup cfg)) = []"
    by (simp add: window_inv_def)
next
  assume "\<not> launchAttemptInProgress s"
  then show "updateUserReadyStatus userID ready s
          = s\<lparr>emitted := emitted s @ [SendMessageToUser userID (UserReadyStatusUpdated ready)]\<rparr>"
    by (simp add: updateUserReadyStatus_idle emit_def)
next
  assume a: "\<not> launchAttemptInProgress s \<and> launchAttemptInProgress (snd (attemptLaunch cfg s))"
  from attemptLaunch_shape [of s cfg] a
  show "readiesReceived (snd (attemptLaunch cfg s)) = []"
    by (auto simp: same_window_def window_opened_def)
qed

theorem ready_registry_empty_while_idle_witness:
  "\<not> launchAttemptInProgress (run scenario_config [] (startup scenario_config))
   \<and> readiesReceived (run scenario_config [] (startup scenario_config)) = []
   \<and> \<not> launchAttemptInProgress (one_captain_ready\<lparr>launchAttemptInProgress := False\<rparr>)
   \<and> launchAttemptInProgress
         (snd (attemptLaunch scenario_config (one_captain_ready\<lparr>launchAttemptInProgress := False\<rparr>)))
   \<and> readiesReceived one_captain_ready = [''A'', ''C'', ''D'']
   \<and> readiesReceived
         (snd (attemptLaunch scenario_config (one_captain_ready\<lparr>launchAttemptInProgress := False\<rparr>)))
       = []"
proof -
  let ?idle = "one_captain_ready\<lparr>launchAttemptInProgress := False\<rparr>"
  have h1: "\<not> launchAttemptInProgress (run scenario_config [] (startup scenario_config))"
    by code_simp
  have h2: "\<not> launchAttemptInProgress ?idle" by simp
  have h3: "launchAttemptInProgress (snd (attemptLaunch scenario_config ?idle))" by code_simp
  have r: "readiesReceived one_captain_ready = [''A'', ''C'', ''D'']" by code_simp
  from ready_registry_empty_while_idle [of scenario_config "[]" ?idle] h1
  have 1: "readiesReceived (run scenario_config [] (startup scenario_config)) = []"
    by blast
  from ready_registry_empty_while_idle [of scenario_config "[]" ?idle] h2 h3
  have 2: "readiesReceived (snd (attemptLaunch scenario_config ?idle)) = []"
    by blast
  from h1 1 h2 h3 r 2 show ?thesis by (intro conjI)
qed

end
